theory Spec2Isabelle
  imports Main "HOL-Library.AList"
begin

section \<open>The deterministic finite-state machine of DFSM.ts\<close>

text \<open>
  The class \<open>DFSM\<close> of \<open>src/DFSM.ts\<close> is embedded function by function. A \<open>throw\<close> is
  the left summand of a sum type; the constructors of \<open>error\<close> are the message templates
  of the source, their fields the values spliced into the message.

  The maps from symbols to states that the caller hands over are objects with an
  identity: the constructor fills them in place, and two entries of a table may hold the
  same map. They live in a store, \<open>heap\<close>, from addresses to objects, and every function
  that assigns into one returns the store it leaves. The table itself is the caller's
  object too; it is passed and returned with the store.

  An object is the association list of its own properties in the order of
  \<open>Object.keys\<close>. Its prototype is \<open>Object.prototype\<close>: reading a property that is not
  its own finds the member of \<open>Object.prototype\<close> of that name, if there is one.
\<close>

type_synonym state = string
type_synonym symbol = string

text \<open>\<open>incomplete_state_transitions\<close> and \<open>state_transitions\<close>: an object from symbols to states.\<close>

type_synonym transitions = "(symbol \<times> state) list"

type_synonym addr = nat
type_synonym heap = "addr \<Rightarrow> transitions"

text \<open>
  One value of the table handed to the constructor: a map in full, the two-element array
  \<open>[transitions, default_transition_state]\<close>, or a value whose \<open>typeof\<close> is not
  \<open>"object"\<close>. The maps are given by their addresses in the store.
\<close>

datatype entry = Full addr | Shorthand addr state | NotObject

type_synonym table = "(state \<times> entry) list"

subsection \<open>Reading and assigning properties\<close>

text \<open>The names that every object inherits from \<open>Object.prototype\<close>.\<close>

definition Object_prototype_names :: "string list" where
  "Object_prototype_names =
     [''constructor'', ''__defineGetter__'', ''__defineSetter__'', ''hasOwnProperty'',
      ''__lookupGetter__'', ''__lookupSetter__'', ''isPrototypeOf'', ''propertyIsEnumerable'',
      ''toString'', ''valueOf'', ''__proto__'', ''toLocaleString'']"

text \<open>
  What a property read can give: \<open>undefined\<close>, a string, the member of
  \<open>Object.prototype\<close> of some name (a function, or for \<open>__proto__\<close> the prototype object),
  or some other value that is neither \<open>undefined\<close> nor a string.
\<close>

datatype jsval = Undefined | Str string | Member string | Foreign

text \<open>
  What the members of \<open>Object.prototype\<close> themselves answer when a property is read off
  them depends on the engine; it is a parameter of the model, \<open>rt m a\<close> for the member
  \<open>m\<close> and the property \<open>a\<close>, with \<open>None\<close> for a read that throws.
\<close>

type_synonym runtime = "string \<Rightarrow> symbol \<Rightarrow> jsval option"

text \<open>\<open>transitions[a]\<close> on a map.\<close>

definition transitions_get :: "transitions \<Rightarrow> symbol \<Rightarrow> jsval" where
  "transitions_get t a =
     (case map_of t a of
        Some s \<Rightarrow> Str s
      | None \<Rightarrow> if a \<in> set Object_prototype_names then Member a else Undefined)"

text \<open>
  The order of \<open>Object.keys\<close>: the keys that are array indices (canonical decimal
  numerals below \<open>2^32 - 1\<close>) in ascending order, then the other keys in the order of
  their creation.
\<close>

fun digits_val :: "int \<Rightarrow> string \<Rightarrow> int option" where
  "digits_val n [] = Some n"
| "digits_val n (c # cs) =
     (if 48 \<le> (of_char c :: int) \<and> (of_char c :: int) \<le> 57
      then digits_val (10 * n + ((of_char c :: int) - 48)) cs else None)"

definition index_of :: "string \<Rightarrow> int option" where
  "index_of s =
     (if s = [] \<or> (hd s = CHR ''0'' \<and> s \<noteq> ''0'') then None
      else (case digits_val 0 s of
              None \<Rightarrow> None
            | Some n \<Rightarrow> if n < 4294967295 then Some n else None))"

fun put_index :: "int \<Rightarrow> string \<Rightarrow> 'v \<Rightarrow> (string \<times> 'v) list \<Rightarrow> (string \<times> 'v) list" where
  "put_index n k v [] = [(k, v)]"
| "put_index n k v (p # ps) =
     (case index_of (fst p) of
        None \<Rightarrow> (k, v) # p # ps
      | Some m \<Rightarrow> if m < n then p # put_index n k v ps else (k, v) # p # ps)"

text \<open>
  \<open>o[k] = v\<close> on a data property: an own property keeps its place, a new one takes the
  place that \<open>Object.keys\<close> gives it.
\<close>

definition js_put :: "string \<Rightarrow> 'v \<Rightarrow> (string \<times> 'v) list \<Rightarrow> (string \<times> 'v) list" where
  "js_put k v al =
     (if k \<in> fst ` set al then AList.update k v al
      else (case index_of k of None \<Rightarrow> al @ [(k, v)] | Some n \<Rightarrow> put_index n k v al))"

text \<open>
  \<open>state_transitions[a] = s\<close> for a string \<open>s\<close>. Where the object has no own property
  \<open>__proto__\<close>, the assignment runs the setter inherited from \<open>Object.prototype\<close>, which
  ignores a string: the object stays as it is.
\<close>

definition proto_name :: string where
  "proto_name = ''__proto__''"

definition assign :: "symbol \<Rightarrow> state \<Rightarrow> transitions \<Rightarrow> transitions" where
  "assign a s t =
     (if a = proto_name \<and> a \<notin> fst ` set t then t else js_put a s t)"

subsection \<open>Errors and the automaton\<close>

datatype error =
    StateNotInQ state
  | SymbolNotInSigma symbol
  | InvalidEntry state
  | MissingEntry state
  | MissingTransition state symbol
  | InvalidTarget state symbol jsval
  | InvalidTransitionType state symbol
  | UndefinedRead state symbol
  | TypeError

record dfsm =
  Q :: "state list"
  \<Sigma> :: "symbol list"
  \<delta> :: table
  q0 :: state
  F :: "state list"
  sink_nodes :: "state list"
  label :: string

subsection \<open>Array.from(new Set(xs))\<close>

text \<open>
  A \<open>Set\<close> keeps its elements in insertion order and ignores the insertion of an element
  it already holds.
\<close>

definition set_add :: "'a list \<Rightarrow> 'a \<Rightarrow> 'a list" where
  "set_add acc x = (if x \<in> set acc then acc else acc @ [x])"

definition dedup :: "'a list \<Rightarrow> 'a list" where
  "dedup xs = foldl set_add [] xs"

subsection \<open>Validation\<close>

definition validate_char :: "symbol list \<Rightarrow> symbol \<Rightarrow> error + unit" where
  "validate_char sigma char =
     (if char \<in> set sigma then Inr () else Inl (SymbolNotInSigma char))"

definition validate_state :: "state list \<Rightarrow> state \<Rightarrow> error + unit" where
  "validate_state qs s =
     (if s \<in> set qs then Inr () else Inl (StateNotInQ s))"

text \<open>\<open>xs.map(v => { validate(v); return v })\<close>: the first element that fails throws.\<close>

fun map_validate :: "('a \<Rightarrow> error + unit) \<Rightarrow> 'a list \<Rightarrow> error + 'a list" where
  "map_validate f [] = Inr []"
| "map_validate f (v # vs) =
     (case f v of
        Inl e \<Rightarrow> Inl e
      | Inr _ \<Rightarrow> (case map_validate f vs of Inl e \<Rightarrow> Inl e | Inr ws \<Rightarrow> Inr (v # ws)))"

text \<open>\<open>string.split("")\<close> gives the one-character strings of the input.\<close>

definition validate_input :: "symbol list \<Rightarrow> string \<Rightarrow> error + symbol list" where
  "validate_input sigma input = map_validate (validate_char sigma) (map (\<lambda>c. [c]) input)"

subsection \<open>Completing the short-hand entries\<close>

text \<open>
  \<open>validate_state(state_transitions[v])\<close> for an own key \<open>v\<close> of the object; were the
  property undefined, the check would throw with the text \<open>undefined\<close> in the message.
\<close>

definition validate_provided :: "state list \<Rightarrow> symbol list \<Rightarrow> transitions \<Rightarrow> symbol \<Rightarrow> error + unit" where
  "validate_provided qs sigma state_transitions v =
     (case validate_char sigma v of
        Inl e \<Rightarrow> Inl e
      | Inr _ \<Rightarrow>
          (case map_of state_transitions v of
             None \<Rightarrow> Inl (StateNotInQ ''undefined'')
           | Some s \<Rightarrow> validate_state qs s))"

definition fill_default :: "symbol list \<Rightarrow> state \<Rightarrow> transitions \<Rightarrow> symbol \<Rightarrow> transitions" where
  "fill_default provided_inputs d state_transitions a =
     (if a \<in> set provided_inputs then state_transitions
      else assign a d state_transitions)"

text \<open>The loop over \<open>\<Sigma>\<close> of \<open>complete_state_transitions\<close>, on the object it is given.\<close>

definition filled :: "symbol list \<Rightarrow> state \<Rightarrow> transitions \<Rightarrow> transitions" where
  "filled sigma d state_transitions =
     foldl (fill_default (map fst state_transitions) d) state_transitions sigma"

text \<open>
  The object at the address \<open>p\<close> is changed in place. Every check comes before the first
  assignment, so a throw leaves the store as it was.
\<close>

definition complete_state_transitions ::
  "state list \<Rightarrow> symbol list \<Rightarrow> heap \<Rightarrow> addr \<Rightarrow> state \<Rightarrow> error + heap" where
  "complete_state_transitions qs sigma h p default_transition_state =
     (case validate_state qs default_transition_state of
        Inl e \<Rightarrow> Inl e
      | Inr _ \<Rightarrow>
          (case map_validate (validate_provided qs sigma (h p)) (map fst (h p)) of
             Inl e \<Rightarrow> Inl e
           | Inr provided_inputs \<Rightarrow>
               Inr (h(p := foldl (fill_default provided_inputs default_transition_state)
                              (h p) sigma))))"

text \<open>
  The loop of \<open>complete_\<delta>\<close> over \<open>provided_states\<close>. The result carries the table and the
  store as the loop leaves them, also when it throws. The keys it runs over are own keys
  of the table, so \<open>\<delta>[q]\<close> finds an entry; for a key that is not, \<open>typeof\<close> is
  \<open>"undefined"\<close> or \<open>"function"\<close> and the loop throws, except for \<open>__proto__\<close>, where it
  finds the prototype object, which is no array.
\<close>

fun complete_loop ::
  "state list \<Rightarrow> symbol list \<Rightarrow> state list \<Rightarrow> table \<Rightarrow> heap \<Rightarrow> (error \<times> table \<times> heap) + table \<times> heap" where
  "complete_loop qs sigma [] d h = Inr (d, h)"
| "complete_loop qs sigma (q # rest) d h =
     (case map_of d q of
        None \<Rightarrow>
          if q = proto_name then complete_loop qs sigma rest d h
          else Inl (InvalidEntry q, d, h)
      | Some NotObject \<Rightarrow> Inl (InvalidEntry q, d, h)
      | Some (Full p) \<Rightarrow> complete_loop qs sigma rest d h
      | Some (Shorthand p default_transition_state) \<Rightarrow>
          (case complete_state_transitions qs sigma h p default_transition_state of
             Inl e \<Rightarrow> Inl (e, d, h)
           | Inr h' \<Rightarrow> complete_loop qs sigma rest (js_put q (Full p) d) h'))"

definition complete_\<delta> ::
  "state list \<Rightarrow> symbol list \<Rightarrow> table \<Rightarrow> heap \<Rightarrow> (error \<times> table \<times> heap) + table \<times> heap" where
  "complete_\<delta> qs sigma d h =
     (case map_validate (validate_state qs) (map fst d) of
        Inl e \<Rightarrow> Inl (e, d, h)
      | Inr provided_states \<Rightarrow> complete_loop qs sigma provided_states d h)"

subsection \<open>The final check and the sink nodes\<close>

text \<open>
  \<open>this.\<delta>[state]\<close>: an own entry of the table, or the member of \<open>Object.prototype\<close> of
  that name, or \<open>undefined\<close>.
\<close>

datatype tval = Entry entry | Proto string

definition table_get :: "table \<Rightarrow> state \<Rightarrow> tval option" where
  "table_get d s =
     (case map_of d s of
        Some e \<Rightarrow> Some (Entry e)
      | None \<Rightarrow> if s \<in> set Object_prototype_names then Some (Proto s) else None)"

text \<open>
  \<open>transitions[input_symbol]\<close>, with \<open>None\<close> for a read that throws. The final check and
  \<open>read\<close> run after \<open>complete_\<delta>\<close> has returned, when every entry of the table is a map
  (lemma \<open>complete_delta_Full\<close> below); on the two other shapes of an entry the model
  reads \<open>undefined\<close>.
\<close>

fun tval_get :: "runtime \<Rightarrow> heap \<Rightarrow> tval \<Rightarrow> symbol \<Rightarrow> jsval option" where
  "tval_get rt h (Entry (Full p)) a = Some (transitions_get (h p) a)"
| "tval_get rt h (Entry (Shorthand p d)) a = Some Undefined"
| "tval_get rt h (Entry NotObject) a = Some Undefined"
| "tval_get rt h (Proto m) a = rt m a"

text \<open>\<open>this.Q.includes(next_state)\<close>: the states are strings.\<close>

fun Q_includes :: "state list \<Rightarrow> jsval \<Rightarrow> bool" where
  "Q_includes qs (Str s) = (s \<in> set qs)"
| "Q_includes qs v = False"

fun check_symbols ::
  "runtime \<Rightarrow> heap \<Rightarrow> state list \<Rightarrow> state \<Rightarrow> tval \<Rightarrow> bool \<Rightarrow> symbol list \<Rightarrow> error + bool" where
  "check_symbols rt h qs s transitions is_sink_node [] = Inr is_sink_node"
| "check_symbols rt h qs s transitions is_sink_node (input_symbol # rest) =
     (case tval_get rt h transitions input_symbol of
        None \<Rightarrow> Inl TypeError
      | Some Undefined \<Rightarrow> Inl (MissingTransition s input_symbol)
      | Some next_state \<Rightarrow>
          if \<not> Q_includes qs next_state then Inl (InvalidTarget s input_symbol next_state)
          else if next_state \<noteq> Str s then check_symbols rt h qs s transitions False rest
          else check_symbols rt h qs s transitions is_sink_node rest)"

fun check_states ::
  "runtime \<Rightarrow> heap \<Rightarrow> state list \<Rightarrow> symbol list \<Rightarrow> table \<Rightarrow> state list \<Rightarrow> state list \<Rightarrow>
     error + state list" where
  "check_states rt h qs sigma d sinks [] = Inr sinks"
| "check_states rt h qs sigma d sinks (s # rest) =
     (case table_get d s of
        None \<Rightarrow> Inl (MissingEntry s)
      | Some transitions \<Rightarrow>
          (case check_symbols rt h qs s transitions True sigma of
             Inl e \<Rightarrow> Inl e
           | Inr is_sink_node \<Rightarrow>
               check_states rt h qs sigma d (if is_sink_node then sinks @ [s] else sinks) rest))"

definition \<delta>_final_check ::
  "runtime \<Rightarrow> heap \<Rightarrow> state list \<Rightarrow> symbol list \<Rightarrow> table \<Rightarrow> error + state list" where
  "\<delta>_final_check rt h qs sigma d = check_states rt h qs sigma d [] qs"

subsection \<open>The constructor\<close>

text \<open>
  A throw leaves no automaton; what the caller still holds is the table argument and the
  maps in the store, in the state the constructor left them. On success \<open>this.\<delta>\<close> is the
  caller's table, and the maps it points to are the caller's maps.
\<close>

definition constructor ::
  "runtime \<Rightarrow> heap \<Rightarrow> state list \<Rightarrow> symbol list \<Rightarrow> table \<Rightarrow> state \<Rightarrow> state list \<Rightarrow> string \<Rightarrow>
     (error \<times> table \<times> heap) + dfsm \<times> heap" where
  "constructor rt h qs sigma d q_init fs lbl =
     (case complete_\<delta> (dedup qs) (dedup sigma) d h of
        Inl (e, d', h') \<Rightarrow> Inl (e, d', h')
      | Inr (d', h') \<Rightarrow>
          (case validate_state (dedup qs) q_init of
             Inl e \<Rightarrow> Inl (e, d', h')
           | Inr _ \<Rightarrow>
               (case map_validate (validate_state (dedup qs)) (dedup fs) of
                  Inl e \<Rightarrow> Inl (e, d', h')
                | Inr fs' \<Rightarrow>
                    (case \<delta>_final_check rt h' (dedup qs) (dedup sigma) d' of
                       Inl e \<Rightarrow> Inl (e, d', h')
                     | Inr sinks \<Rightarrow>
                         Inr (\<lparr>Q = dedup qs, \<Sigma> = dedup sigma, \<delta> = d', q0 = q_init,
                               F = fs', sink_nodes = sinks, label = lbl\<rparr>, h')))))"

text \<open>The caller's table and store after the call, and what the call gave.\<close>

definition table_after :: "(error \<times> table \<times> heap) + dfsm \<times> heap \<Rightarrow> table" where
  "table_after r = (case r of Inl (e, d, h) \<Rightarrow> d | Inr (A, h) \<Rightarrow> \<delta> A)"

definition heap_after :: "(error \<times> table \<times> heap) + dfsm \<times> heap \<Rightarrow> heap" where
  "heap_after r = (case r of Inl (e, d, h) \<Rightarrow> h | Inr (A, h) \<Rightarrow> h)"

definition outcome :: "(error \<times> table \<times> heap) + dfsm \<times> heap \<Rightarrow> error + dfsm" where
  "outcome r = (case r of Inl (e, d, h) \<Rightarrow> Inl e | Inr (A, h) \<Rightarrow> Inr A)"

subsection \<open>read and test\<close>

text \<open>\<open>this.\<delta>[currentState][parsed[i]]\<close> where it is a string.\<close>

definition \<delta>_at :: "runtime \<Rightarrow> heap \<Rightarrow> table \<Rightarrow> state \<Rightarrow> symbol \<Rightarrow> state option" where
  "\<delta>_at rt h d s a =
     (case table_get d s of
        None \<Rightarrow> None
      | Some t \<Rightarrow> (case tval_get rt h t a of Some (Str n) \<Rightarrow> Some n | _ \<Rightarrow> None))"

text \<open>
  The loop of \<open>read\<close>. Reading a property of \<open>undefined\<close> throws a \<open>TypeError\<close>. Where the
  table gives a value that is not a string the source goes on with that value; the model
  stops there with \<open>UndefinedRead\<close>, so that a result \<open>Inr s\<close> is always a state read
  from the table.
\<close>

fun scan :: "runtime \<Rightarrow> heap \<Rightarrow> dfsm \<Rightarrow> state \<Rightarrow> symbol list \<Rightarrow> error + state" where
  "scan rt h A currentState [] = Inr currentState"
| "scan rt h A currentState (a # parsed) =
     (if currentState \<in> set (sink_nodes A) then Inr currentState
      else (case table_get (\<delta> A) currentState of
              None \<Rightarrow> Inl TypeError
            | Some t \<Rightarrow>
                (case tval_get rt h t a of
                   None \<Rightarrow> Inl TypeError
                 | Some (Str s) \<Rightarrow> scan rt h A s parsed
                 | Some v \<Rightarrow> Inl (UndefinedRead currentState a))))"

definition read :: "runtime \<Rightarrow> heap \<Rightarrow> dfsm \<Rightarrow> string \<Rightarrow> error + state" where
  "read rt h A input =
     (case validate_input (\<Sigma> A) input of
        Inl e \<Rightarrow> Inl e
      | Inr parsed \<Rightarrow> scan rt h A (q0 A) parsed)"

definition test :: "runtime \<Rightarrow> heap \<Rightarrow> dfsm \<Rightarrow> string \<Rightarrow> bool" where
  "test rt h A input =
     (case read rt h A input of Inl e \<Rightarrow> False | Inr finalState \<Rightarrow> finalState \<in> set (F A))"

subsection \<open>Auxiliary notions for the statements\<close>

text \<open>
  The short-hand pairs on which \<open>complete_state_transitions\<close> does not throw: the default
  is a state of \<open>Q\<close>, and every own key of the map is a symbol of the alphabet with a
  state of \<open>Q\<close> as its value.
\<close>

definition pair_ok :: "state list \<Rightarrow> symbol list \<Rightarrow> transitions \<Rightarrow> state \<Rightarrow> bool" where
  "pair_ok qs sigma t d \<longleftrightarrow>
     d \<in> set qs \<and>
     (\<forall>v\<in>set (map fst t). v \<in> set sigma \<and>
        (case map_of t v of None \<Rightarrow> False | Some s \<Rightarrow> s \<in> set qs))"

text \<open>What \<open>\<delta>[q] = transitions\<close> puts in the place of an entry: the map of the pair.\<close>

fun as_full :: "entry \<Rightarrow> entry" where
  "as_full (Shorthand p d) = Full p"
| "as_full (Full p) = Full p"
| "as_full NotObject = NotObject"

text \<open>
  One table is the other with some pairs replaced by their maps: the same keys in the
  same order, and each entry either as it was or the map of the pair it was.
\<close>

definition in_place :: "table \<Rightarrow> table \<Rightarrow> bool" where
  "in_place d d' =
     list_all2 (\<lambda>x y. fst y = fst x \<and> (snd y = snd x \<or> snd y = as_full (snd x))) d d'"

text \<open>The default states of the pairs of a table that hold the map at address \<open>x\<close>.\<close>

fun defaults_at :: "table \<Rightarrow> addr \<Rightarrow> state list" where
  "defaults_at [] x = []"
| "defaults_at ((k, Shorthand p d) # rest) x =
     (if p = x then d # defaults_at rest x else defaults_at rest x)"
| "defaults_at ((k, e) # rest) x = defaults_at rest x"

text \<open>
  The map at address \<open>x\<close> is as it was, or it is what it was with the missing symbols of
  the alphabet sent to the default state of one of the pairs that hold it.
\<close>

definition filled_once :: "symbol list \<Rightarrow> table \<Rightarrow> heap \<Rightarrow> heap \<Rightarrow> addr \<Rightarrow> bool" where
  "filled_once sigma d h h' x \<longleftrightarrow>
     h' x = h x \<or> h' x \<in> set (map (\<lambda>dflt. filled sigma dflt (h x)) (defaults_at d x))"

text \<open>The table and the store as the loop of \<open>complete_\<delta>\<close> leaves them, whether it returns or throws.\<close>

definition loop_table :: "(error \<times> table \<times> heap) + table \<times> heap \<Rightarrow> table" where
  "loop_table r = (case r of Inl (e, d, h) \<Rightarrow> d | Inr (d, h) \<Rightarrow> d)"

definition loop_heap :: "(error \<times> table \<times> heap) + table \<times> heap \<Rightarrow> heap" where
  "loop_heap r = (case r of Inl (e, d, h) \<Rightarrow> h | Inr (d, h) \<Rightarrow> h)"

text \<open>
  An entry with no defect of its own: a full map with an own state of \<open>Q\<close> for every
  symbol of the alphabet, or a short-hand pair that passes the checks of
  \<open>complete_state_transitions\<close> (and lists the symbol \<open>__proto__\<close> itself if the alphabet
  has it, since the completion cannot add that one).
\<close>

definition entry_valid :: "state list \<Rightarrow> symbol list \<Rightarrow> heap \<Rightarrow> entry \<Rightarrow> bool" where
  "entry_valid qs sigma h e =
     (case e of
        Full p \<Rightarrow>
          (\<forall>a\<in>set sigma. case map_of (h p) a of None \<Rightarrow> False | Some n \<Rightarrow> n \<in> set qs)
      | Shorthand p dflt \<Rightarrow>
          pair_ok qs sigma (h p) dflt \<and>
          (proto_name \<in> set sigma \<longrightarrow> proto_name \<in> set (map fst (h p)))
      | NotObject \<Rightarrow> False)"

text \<open>The final check accepts what it reads for \<open>a\<close>: a string that is a state of \<open>Q\<close>.\<close>

definition target_ok :: "runtime \<Rightarrow> heap \<Rightarrow> state list \<Rightarrow> tval \<Rightarrow> symbol \<Rightarrow> bool" where
  "target_ok rt h qs t a =
     (case tval_get rt h t a of Some (Str n) \<Rightarrow> n \<in> set qs | _ \<Rightarrow> False)"

text \<open>A sink: every symbol of the alphabet leads back to the state itself.\<close>

definition is_sink :: "runtime \<Rightarrow> heap \<Rightarrow> symbol list \<Rightarrow> table \<Rightarrow> state \<Rightarrow> bool" where
  "is_sink rt h sig d s = (\<forall>a\<in>set sig. \<delta>_at rt h d s a = Some s)"

text \<open>What the constructor establishes and \<open>read\<close> relies on.\<close>

definition well_formed :: "runtime \<Rightarrow> heap \<Rightarrow> dfsm \<Rightarrow> bool" where
  "well_formed rt h A \<longleftrightarrow>
     q0 A \<in> set (Q A) \<and>
     (\<forall>s\<in>set (Q A). \<forall>a\<in>set (\<Sigma> A). \<exists>n. \<delta>_at rt h (\<delta> A) s a = Some n \<and> n \<in> set (Q A)) \<and>
     sink_nodes A = filter (is_sink rt h (\<Sigma> A) (\<delta> A)) (Q A)"

text \<open>
  The specification's reading of \<open>read\<close>: the plain fold of the transition function over
  the whole input, with no look at the sink nodes.
\<close>

fun plain_fold :: "runtime \<Rightarrow> heap \<Rightarrow> table \<Rightarrow> state \<Rightarrow> symbol list \<Rightarrow> state option" where
  "plain_fold rt h d s [] = Some s"
| "plain_fold rt h d s (a # parsed) =
     (case \<delta>_at rt h d s a of None \<Rightarrow> None | Some s' \<Rightarrow> plain_fold rt h d s' parsed)"

text \<open>
  The map an entry holds. In \<open>sole_owner d q p\<close> no entry of the table but that of \<open>q\<close>
  holds the map at \<open>p\<close>; in \<open>unused d m\<close> no entry holds the map at \<open>m\<close>.
\<close>

fun entry_addr :: "entry \<Rightarrow> addr option" where
  "entry_addr (Full p) = Some p"
| "entry_addr (Shorthand p d) = Some p"
| "entry_addr NotObject = None"

definition sole_owner :: "table \<Rightarrow> state \<Rightarrow> addr \<Rightarrow> bool" where
  "sole_owner d q p = list_all (\<lambda>x. fst x = q \<or> entry_addr (snd x) \<noteq> Some p) d"

definition unused :: "table \<Rightarrow> addr \<Rightarrow> bool" where
  "unused d m = list_all (\<lambda>x. entry_addr (snd x) \<noteq> Some m) d"

text \<open>
  \<open>\<delta>[s]\<close> is \<open>undefined\<close>: the table has no own entry for \<open>s\<close>, and \<open>s\<close> is not the name
  of a member of \<open>Object.prototype\<close>.
\<close>

definition undefined_in :: "table \<Rightarrow> state \<Rightarrow> bool" where
  "undefined_in d s \<longleftrightarrow> map_of d s = None \<and> s \<notin> set Object_prototype_names"

subsection \<open>The single-pass revision of the class\<close>

text \<open>
  The repository keeps another revision of the class (\<open>unnamed/part_000\<close>) that has no
  final check: its \<open>#complete_\<delta>\<close> runs over \<open>Q\<close>, checks and completes each entry and
  decides in the same pass whether the state is a sink. For a map in full it reads the
  target of every symbol; for a short-hand pair it compares the targets listed in the
  pair with the default state, before the pair is completed. \<open>validate_state\<close>,
  \<open>complete_state_transitions\<close>, \<open>read\<close> and \<open>test\<close> are as above.
\<close>

text \<open>\<open>typeof t === "object"\<close> for what \<open>\<delta>[q]\<close> gives.\<close>

fun is_object :: "tval \<Rightarrow> bool" where
  "is_object (Entry NotObject) = False"
| "is_object (Entry e) = True"
| "is_object (Proto m) = (m = proto_name)"

text \<open>The loop over the alphabet for an entry in full.\<close>

fun check_full ::
  "runtime \<Rightarrow> heap \<Rightarrow> state list \<Rightarrow> state \<Rightarrow> tval \<Rightarrow> bool \<Rightarrow> symbol list \<Rightarrow> error + bool" where
  "check_full rt h qs q t sink_node [] = Inr sink_node"
| "check_full rt h qs q t sink_node (a # rest) =
     (case tval_get rt h t a of
        None \<Rightarrow> Inl TypeError
      | Some Undefined \<Rightarrow> Inl (MissingTransition q a)
      | Some (Str next_q) \<Rightarrow>
          if next_q \<notin> set qs then Inl (InvalidTarget q a (Str next_q))
          else check_full rt h qs q t (if next_q \<noteq> q then False else sink_node) rest
      | Some v \<Rightarrow> Inl (InvalidTransitionType q a))"

fun complete_\<delta>_single_pass ::
  "runtime \<Rightarrow> state list \<Rightarrow> symbol list \<Rightarrow> state list \<Rightarrow> table \<Rightarrow> heap \<Rightarrow> state list \<Rightarrow>
     (error \<times> table \<times> heap) + table \<times> heap \<times> state list" where
  "complete_\<delta>_single_pass rt qs sigma [] d h sinks = Inr (d, h, sinks)"
| "complete_\<delta>_single_pass rt qs sigma (q # rest) d h sinks =
     (case table_get d q of
        None \<Rightarrow> Inl (MissingEntry q, d, h)
      | Some t \<Rightarrow>
          if \<not> is_object t then Inl (InvalidEntry q, d, h)
          else
            (case t of
               Entry (Shorthand p default_transition_state) \<Rightarrow>
                 (let transitions = h p;
                      sink_node = list_all (\<lambda>v. map_of transitions v = Some default_transition_state)
                                    (map fst transitions) in
                  case complete_state_transitions qs sigma h p default_transition_state of
                    Inl e \<Rightarrow> Inl (e, d, h)
                  | Inr h' \<Rightarrow>
                      complete_\<delta>_single_pass rt qs sigma rest (js_put q (Full p) d) h'
                        (if sink_node then sinks @ [q] else sinks))
             | _ \<Rightarrow>
                 (case check_full rt h qs q t True sigma of
                    Inl e \<Rightarrow> Inl (e, d, h)
                  | Inr sink_node \<Rightarrow>
                      complete_\<delta>_single_pass rt qs sigma rest d h
                        (if sink_node then sinks @ [q] else sinks))))"

definition constructor_single_pass ::
  "runtime \<Rightarrow> heap \<Rightarrow> state list \<Rightarrow> symbol list \<Rightarrow> table \<Rightarrow> state \<Rightarrow> state list \<Rightarrow> string \<Rightarrow>
     (error \<times> table \<times> heap) + dfsm \<times> heap" where
  "constructor_single_pass rt h qs sigma d q_init fs lbl =
     (case complete_\<delta>_single_pass rt (dedup qs) (dedup sigma) (dedup qs) d h [] of
        Inl (e, d', h') \<Rightarrow> Inl (e, d', h')
      | Inr (d', h', sinks) \<Rightarrow>
          (case validate_state (dedup qs) q_init of
             Inl e \<Rightarrow> Inl (e, d', h')
           | Inr _ \<Rightarrow>
               (case map_validate (validate_state (dedup qs)) (dedup fs) of
                  Inl e \<Rightarrow> Inl (e, d', h')
                | Inr fs' \<Rightarrow>
                    Inr (\<lparr>Q = dedup qs, \<Sigma> = dedup sigma, \<delta> = d', q0 = q_init,
                          F = fs', sink_nodes = sinks, label = lbl\<rparr>, h'))))"

subsection \<open>The automata of the repository's tests\<close>

text \<open>
  In the examples no state is named like a member of \<open>Object.prototype\<close>, so that the
  runtime is never asked; this one answers \<open>undefined\<close>.
\<close>

definition no_properties :: runtime where
  "no_properties m a = Some Undefined"

text \<open>\<open>A001\<close> accepts the empty string and the strings that alternate 0 and 1, starting with 0.\<close>

definition A001_maps :: heap where
  "A001_maps p =
     (if p = 0 then [(''0'', ''q1''), (''1'', ''e'')]
      else if p = 1 then [(''0'', ''e''), (''1'', ''q0'')]
      else if p = 2 then [(''0'', ''e''), (''1'', ''e'')]
      else [])"

definition A001_\<delta> :: table where
  "A001_\<delta> = [(''q0'', Full 0), (''q1'', Full 1), (''e'', Full 2)]"

definition A001 :: dfsm where
  "A001 = \<lparr>Q = [''q0'', ''q1'', ''e''], \<Sigma> = [''0'', ''1''], \<delta> = A001_\<delta>, q0 = ''q0'',
            F = [''q0'', ''q1''], sink_nodes = [''e''], label = ''0+(01)*(0+E)''\<rparr>"

text \<open>The same automaton with every entry in short-hand, each pair with a map of its own.\<close>

definition A001_short_maps :: heap where
  "A001_short_maps p =
     (if p = 0 then [(''0'', ''q1'')]
      else if p = 1 then [(''0'', ''e'')]
      else [])"

definition A001_short :: table where
  "A001_short =
     [(''q0'', Shorthand 0 ''e''), (''q1'', Shorthand 1 ''q0''), (''e'', Shorthand 2 ''e'')]"

text \<open>
  Two tables over the states \<open>a\<close>, \<open>b\<close> and the alphabet \<open>0\<close>, both
  \<open>{a: [P, "b"], b: {0: "b"}}\<close>: with \<open>P = {}\<close> in the first store and \<open>P = {0: "a"}\<close> in
  the second.
\<close>

definition early_sink_\<delta> :: table where
  "early_sink_\<delta> = [(''a'', Shorthand 0 ''b''), (''b'', Full 1)]"

definition early_sink_maps :: heap where
  "early_sink_maps p = (if p = 1 then [(''0'', ''b'')] else [])"

definition missed_sink_maps :: heap where
  "missed_sink_maps p = (if p = 0 then [(''0'', ''a'')] else if p = 1 then [(''0'', ''b'')] else [])"

text \<open>
  The table \<open>{a: [P, "a"], b: [P, "b"]}\<close> whose two pairs hold the same map
  \<open>P = {0: "a"}\<close>.
\<close>

definition shared_\<delta> :: table where
  "shared_\<delta> = [(''a'', Shorthand 0 ''a''), (''b'', Shorthand 0 ''b'')]"

definition shared_maps :: heap where
  "shared_maps p = (if p = 0 then [(''0'', ''a'')] else [])"

text \<open>The table \<open>{a: {}}\<close>, for the states \<open>a\<close> and \<open>b\<close>.\<close>

definition preempted_\<delta> :: table where
  "preempted_\<delta> = [(''a'', Full 0)]"

definition empty_maps :: heap where
  "empty_maps p = []"

section \<open>Properties of the parts\<close>

subsection \<open>Deduplication and validation\<close>

lemma set_foldl_set_add: "set (foldl set_add acc xs) = set acc \<union> set xs"
  by (induction xs arbitrary: acc) (auto simp: set_add_def)

lemma distinct_foldl_set_add: "distinct acc \<Longrightarrow> distinct (foldl set_add acc xs)"
  by (induction xs arbitrary: acc) (auto simp: set_add_def)

lemma foldl_set_add_distinct: "distinct (acc @ xs) \<Longrightarrow> foldl set_add acc xs = acc @ xs"
  by (induction xs arbitrary: acc) (auto simp: set_add_def)

lemma set_dedup: "set (dedup xs) = set xs"
  by (simp add: dedup_def set_foldl_set_add)

lemma distinct_dedup: "distinct (dedup xs)"
  by (simp add: dedup_def distinct_foldl_set_add)

lemma dedup_distinct: "distinct xs \<Longrightarrow> dedup xs = xs"
  using foldl_set_add_distinct [of "[]" xs] by (simp add: dedup_def)

lemma dedup_idem: "dedup (dedup xs) = dedup xs"
  by (simp add: dedup_distinct distinct_dedup)

lemma dedup_snoc: "dedup (xs @ [x]) = (if x \<in> set xs then dedup xs else dedup xs @ [x])"
  by (simp add: dedup_def set_add_def set_foldl_set_add)

lemma dedup_first_occurrences: "dedup xs = rev (remdups (rev xs))"
  by (induction xs rule: rev_induct) (simp_all add: dedup_snoc, simp add: dedup_def)

lemma map_validate_Inr: "map_validate f xs = Inr ys \<Longrightarrow> ys = xs \<and> (\<forall>x\<in>set xs. f x = Inr ())"
  by (induction xs arbitrary: ys) (auto split: sum.splits)

lemma map_validate_ok: "(\<forall>x\<in>set xs. f x = Inr ()) \<Longrightarrow> map_validate f xs = Inr xs"
  by (induction xs) auto

lemma map_validate_Inl:
  "map_validate f xs = Inl e \<Longrightarrow> \<exists>x. find (\<lambda>x. f x \<noteq> Inr ()) xs = Some x \<and> f x = Inl e"
  by (induction xs) (auto split: sum.splits)

lemma map_validate_find:
  "find (\<lambda>x. f x \<noteq> Inr ()) xs = Some x \<Longrightarrow> f x = Inl e \<Longrightarrow> map_validate f xs = Inl e"
  by (induction xs) (auto split: sum.splits if_splits)

subsection \<open>Properties of objects and their completion\<close>

lemma map_of_put_index:
  "k \<notin> fst ` set al \<Longrightarrow> map_of (put_index n k v al) = (map_of al)(k \<mapsto> v)"
proof (induction al)
  case Nil
  then show ?case by simp
next
  case (Cons p al)
  then have "k \<noteq> fst p" and "k \<notin> fst ` set al" by auto
  with Cons.IH show ?case
    by (cases p) (auto simp: fun_eq_iff split: option.splits)
qed

lemma keys_put_index: "fst ` set (put_index n k v al) = insert k (fst ` set al)"
  by (induction al) (auto split: option.splits)

lemma map_of_js_put: "map_of (js_put k v al) = (map_of al)(k \<mapsto> v)"
proof (cases "k \<in> fst ` set al")
  case True
  then show ?thesis by (simp add: js_put_def AList.update_conv')
next
  case False
  then have "map_of al k = None" by (simp add: map_of_eq_None_iff)
  with False show ?thesis
    by (cases "index_of k")
      (auto simp: js_put_def map_of_put_index fun_eq_iff map_add_def split: option.splits)
qed

lemma keys_js_put: "fst ` set (js_put k v al) = insert k (fst ` set al)"
  by (auto simp: js_put_def keys_put_index AList.dom_update split: option.splits)

lemma update_keys_present: "map_of al k = Some v \<Longrightarrow> map fst (AList.update k v' al) = map fst al"
  by (induction al) (auto split: if_splits)

lemma js_put_keys_present: "map_of al k = Some v \<Longrightarrow> map fst (js_put k v' al) = map fst al"
proof -
  assume a: "map_of al k = Some v"
  then have "k \<in> fst ` set al" using map_of_eq_None_iff [of al k] by auto
  with a show ?thesis by (simp add: js_put_def update_keys_present)
qed

lemma set_update_subset: "set (AList.update k v al) \<subseteq> insert (k, v) (set al)"
  by (induction al) auto

lemma set_js_put_present:
  "map_of al k = Some v \<Longrightarrow> set (js_put k v' al) \<subseteq> insert (k, v') (set al)"
proof -
  assume a: "map_of al k = Some v"
  then have "k \<in> fst ` set al" using map_of_eq_None_iff [of al k] by auto
  then show ?thesis by (simp add: js_put_def set_update_subset)
qed

lemma map_of_assign:
  "map_of (assign a s t) =
     (if a = proto_name \<and> a \<notin> fst ` set t then map_of t else (map_of t)(a \<mapsto> s))"
  by (auto simp: assign_def map_of_js_put)

lemma keys_assign:
  "fst ` set (assign a s t) =
     (if a = proto_name \<and> a \<notin> fst ` set t then fst ` set t else insert a (fst ` set t))"
  by (auto simp: assign_def keys_js_put)

lemma keys_fill_foldl:
  "fst ` set (foldl (fill_default prov d) t sig) =
     fst ` set t \<union> {a \<in> set sig. a \<notin> set prov \<and> (a = proto_name \<longrightarrow> a \<in> fst ` set t)}"
proof (induction sig arbitrary: t)
  case Nil
  show ?case by simp
next
  case (Cons x sig)
  show ?case
    unfolding foldl_Cons Cons.IH
    by (auto simp: fill_default_def keys_assign)
qed

lemma map_of_fill_foldl:
  "map_of (foldl (fill_default prov d) t sig) a =
     (if a \<in> set sig \<and> a \<notin> set prov \<and> (a = proto_name \<longrightarrow> a \<in> fst ` set t)
      then Some d else map_of t a)"
proof (induction sig arbitrary: t)
  case Nil
  show ?case by simp
next
  case (Cons x sig)
  show ?case
    unfolding foldl_Cons Cons.IH
    by (auto simp: fill_default_def map_of_assign keys_assign)
qed

lemma map_of_filled:
  "map_of (filled sigma d t) a =
     (case map_of t a of
        Some s \<Rightarrow> Some s
      | None \<Rightarrow> if a \<in> set sigma \<and> a \<noteq> proto_name then Some d else None)"
proof (cases "map_of t a")
  case None
  then have "a \<notin> fst ` set t" by (simp add: map_of_eq_None_iff)
  with None show ?thesis by (auto simp: filled_def map_of_fill_foldl)
next
  case (Some s)
  then have "a \<in> fst ` set t" using map_of_eq_None_iff [of t a] by auto
  with Some show ?thesis by (simp add: filled_def map_of_fill_foldl)
qed

lemma keys_filled:
  "fst ` set (filled sigma d t) = fst ` set t \<union> (set sigma - {proto_name})"
  by (auto simp: filled_def keys_fill_foldl)

lemma fill_foldl_noop:
  "\<forall>a\<in>set sig. a \<in> set prov \<or> (a = proto_name \<and> a \<notin> fst ` set t) \<Longrightarrow>
   foldl (fill_default prov d) t sig = t"
  by (induction sig) (auto simp: fill_default_def assign_def)

lemma filled_noop:
  "\<forall>a\<in>set sigma. a \<in> fst ` set t \<or> a = proto_name \<Longrightarrow> filled sigma d t = t"
  unfolding filled_def by (rule fill_foldl_noop) auto

lemma filled_absorb: "filled sigma d2 (filled sigma d1 t) = filled sigma d1 t"
  by (rule filled_noop) (auto simp: keys_filled)

subsection \<open>Completion in place\<close>

lemma validate_state_iff: "validate_state qs s = Inr () \<longleftrightarrow> s \<in> set qs"
  by (simp add: validate_state_def)

lemma validate_char_iff: "validate_char sig c = Inr () \<longleftrightarrow> c \<in> set sig"
  by (simp add: validate_char_def)

lemma validate_provided_ok:
  "validate_provided qs sigma t v = Inr () \<longleftrightarrow>
     v \<in> set sigma \<and> (case map_of t v of None \<Rightarrow> False | Some s \<Rightarrow> s \<in> set qs)"
  by (auto simp: validate_provided_def validate_char_def validate_state_def split: option.splits)

lemma complete_state_transitions_Inr:
  assumes "complete_state_transitions qs sigma h p d = Inr h'"
  shows "pair_ok qs sigma (h p) d" and "h' = h(p := filled sigma d (h p))"
proof -
  from assms have dq: "d \<in> set qs"
    by (auto simp: complete_state_transitions_def validate_state_def split: if_splits)
  from assms obtain prov where prov: "map_validate (validate_provided qs sigma (h p)) (map fst (h p)) = Inr prov"
    and h': "h' = h(p := foldl (fill_default prov d) (h p) sigma)"
    by (auto simp: complete_state_transitions_def split: sum.splits)
  from map_validate_Inr [OF prov] have pk: "prov = map fst (h p)"
    and all: "\<forall>x\<in>set (map fst (h p)). validate_provided qs sigma (h p) x = Inr ()" by auto
  from all dq show "pair_ok qs sigma (h p) d"
    unfolding pair_ok_def validate_provided_ok by blast
  from h' pk show "h' = h(p := filled sigma d (h p))" by (simp add: filled_def)
qed

lemma complete_state_transitions_ok:
  assumes "pair_ok qs sigma (h p) d"
  shows "complete_state_transitions qs sigma h p d = Inr (h(p := filled sigma d (h p)))"
proof -
  have "\<forall>x\<in>set (map fst (h p)). validate_provided qs sigma (h p) x = Inr ()"
    using assms unfolding pair_ok_def validate_provided_ok by blast
  then have "map_validate (validate_provided qs sigma (h p)) (map fst (h p)) = Inr (map fst (h p))"
    by (rule map_validate_ok)
  moreover from assms have "d \<in> set qs" by (simp add: pair_ok_def)
  ultimately show ?thesis
    by (simp add: complete_state_transitions_def validate_state_def filled_def)
qed

lemma complete_state_transitions_error:
  assumes "complete_state_transitions qs sigma h p d = Inl e"
  shows "(\<exists>s. e = StateNotInQ s) \<or> (\<exists>c. e = SymbolNotInSigma c)"
proof (cases "validate_state qs d")
  case (Inl e')
  with assms show ?thesis
    by (auto simp: complete_state_transitions_def validate_state_def split: if_splits)
next
  case (Inr u)
  with assms have "map_validate (validate_provided qs sigma (h p)) (map fst (h p)) = Inl e"
    by (auto simp: complete_state_transitions_def split: sum.splits)
  from map_validate_Inl [OF this] obtain x where "validate_provided qs sigma (h p) x = Inl e" by blast
  then show ?thesis
    by (auto simp: validate_provided_def validate_char_def validate_state_def
        split: if_splits option.splits)
qed

lemma in_place_refl: "in_place d d"
  by (simp add: in_place_def list_all2_same)

lemma as_full_idem: "as_full (as_full e) = as_full e"
  by (cases e) auto

lemma in_place_trans:
  assumes "in_place d d1" and "in_place d1 d2"
  shows "in_place d d2"
  using assms unfolding in_place_def
proof (rule list_all2_trans [rotated])
  fix x y z
  assume "fst y = fst x \<and> (snd y = snd x \<or> snd y = as_full (snd x))"
    and "fst z = fst y \<and> (snd z = snd y \<or> snd z = as_full (snd y))"
  then show "fst z = fst x \<and> (snd z = snd x \<or> snd z = as_full (snd x))"
    by (auto simp: as_full_idem)
qed

lemma in_place_update:
  "map_of d q = Some e \<Longrightarrow> in_place d (AList.update q (as_full e) d)"
proof (induction d)
  case Nil
  then show ?case by simp
next
  case (Cons p d)
  show ?case
  proof (cases "fst p = q")
    case True
    with Cons.prems have "snd p = e" by (cases p) simp
    with True show ?thesis
      using in_place_refl [of d] by (simp add: in_place_def)
  next
    case False
    with Cons.prems have "map_of d q = Some e" by (cases p) (simp split: if_splits)
    from Cons.IH [OF this] False show ?thesis by (simp add: in_place_def)
  qed
qed

lemma in_place_js_put:
  assumes "map_of d q = Some e"
  shows "in_place d (js_put q (as_full e) d)"
proof -
  from assms have "q \<in> fst ` set d" using map_of_eq_None_iff [of d q] by auto
  then have "js_put q (as_full e) d = AList.update q (as_full e) d" by (simp add: js_put_def)
  with in_place_update [OF assms] show ?thesis by simp
qed

lemma in_place_keys: "in_place d d' \<Longrightarrow> map fst d' = map fst d"
  unfolding in_place_def by (induction d d' rule: list_all2_induct) auto

lemma in_place_map_of:
  "in_place d d' \<Longrightarrow> map_of d' k = Some e' \<Longrightarrow>
   \<exists>e. map_of d k = Some e \<and> (e' = e \<or> e' = as_full e)"
  unfolding in_place_def
  by (induction d d' rule: list_all2_induct) (auto split: if_splits)

lemma in_place_map_of_None:
  "in_place d d' \<Longrightarrow> map_of d' k = None \<longleftrightarrow> map_of d k = None"
  by (metis in_place_keys map_of_eq_None_iff set_map)

lemma in_place_no_shorthand:
  assumes "in_place d d'" and "\<forall>x\<in>set d. as_full (snd x) = snd x"
  shows "d' = d"
  using assms unfolding in_place_def
  by (induction d d' rule: list_all2_induct) (auto simp: prod_eq_iff)

lemma defaults_at_mem:
  "dflt \<in> set (defaults_at d x) \<longleftrightarrow> (\<exists>k. (k, Shorthand x dflt) \<in> set d)"
  by (induction d x rule: defaults_at.induct) auto

lemma in_place_defaults:
  "in_place d d' \<Longrightarrow> set (defaults_at d' x) \<subseteq> set (defaults_at d x)"
proof
  fix dflt
  assume ip: "in_place d d'" and "dflt \<in> set (defaults_at d' x)"
  then obtain k where k: "(k, Shorthand x dflt) \<in> set d'" by (auto simp: defaults_at_mem)
  then obtain i where i: "i < length d'" "d' ! i = (k, Shorthand x dflt)"
    by (auto simp: in_set_conv_nth)
  from ip have len: "length d = length d'" and
    rel: "\<forall>i<length d. fst (d' ! i) = fst (d ! i) \<and> (snd (d' ! i) = snd (d ! i) \<or> snd (d' ! i) = as_full (snd (d ! i)))"
    by (auto simp: in_place_def list_all2_conv_all_nth)
  from rel i len have "fst (d ! i) = k" and
    s: "Shorthand x dflt = snd (d ! i) \<or> Shorthand x dflt = as_full (snd (d ! i))" by auto
  from s have "snd (d ! i) = Shorthand x dflt" by (cases "snd (d ! i)") auto
  with \<open>fst (d ! i) = k\<close> have "d ! i = (k, Shorthand x dflt)" by (simp add: prod_eq_iff)
  with i len have "(k, Shorthand x dflt) \<in> set d" by (metis nth_mem)
  then show "dflt \<in> set (defaults_at d x)" by (auto simp: defaults_at_mem)
qed

lemma filled_once_refl: "filled_once sigma d h h x"
  by (simp add: filled_once_def)

lemma filled_once_trans:
  assumes "filled_once sigma d h h1 x" and "filled_once sigma d1 h1 h2 x"
    and "set (defaults_at d1 x) \<subseteq> set (defaults_at d x)"
  shows "filled_once sigma d h h2 x"
  using assms unfolding filled_once_def by (auto simp: filled_absorb)

lemma filled_once_step:
  assumes "map_of d q = Some (Shorthand p dflt)"
  shows "filled_once sigma d h (h(p := filled sigma dflt (h p))) x"
proof (cases "x = p")
  case True
  from assms have "(q, Shorthand p dflt) \<in> set d" by (rule map_of_SomeD)
  then have "dflt \<in> set (defaults_at d p)" by (auto simp: defaults_at_mem)
  with True show ?thesis by (simp add: filled_once_def)
next
  case False
  then show ?thesis by (simp add: filled_once_def)
qed

lemma complete_loop_in_place:
  "in_place d (loop_table (complete_loop qs sigma ks d h)) \<and>
   (\<forall>x. filled_once sigma d h (loop_heap (complete_loop qs sigma ks d h)) x)"
proof (induction ks arbitrary: d h)
  case Nil
  show ?case by (simp add: loop_table_def loop_heap_def in_place_refl filled_once_refl)
next
  case (Cons q rest)
  show ?case
  proof (cases "map_of d q")
    case None
    with Cons.IH [of d h] show ?thesis
      by (simp add: loop_table_def loop_heap_def in_place_refl filled_once_refl)
  next
    case (Some e)
    show ?thesis
    proof (cases e)
      case (Full p)
      with Some Cons.IH [of d h] show ?thesis by simp
    next
      case (Shorthand p dflt)
      show ?thesis
      proof (cases "complete_state_transitions qs sigma h p dflt")
        case (Inl err)
        with Some Shorthand show ?thesis
          by (simp add: loop_table_def loop_heap_def in_place_refl filled_once_refl)
      next
        case (Inr h1)
        let ?d1 = "js_put q (Full p) d"
        let ?r = "complete_loop qs sigma rest ?d1 h1"
        from complete_state_transitions_Inr(2) [OF Inr]
        have h1: "h1 = h(p := filled sigma dflt (h p))" .
        from in_place_js_put [OF Some] Shorthand have 1: "in_place d ?d1" by simp
        from Cons.IH [of ?d1 h1] have 2: "in_place ?d1 (loop_table ?r)"
          and 3: "\<forall>x. filled_once sigma ?d1 h1 (loop_heap ?r) x" by auto
        have 4: "filled_once sigma d h h1 x" for x
          using filled_once_step [of d q p dflt sigma h x] Some Shorthand h1 by simp
        have "filled_once sigma d h (loop_heap ?r) x" for x
          using filled_once_trans [OF 4 _ in_place_defaults [OF 1]] 3 by blast
        with in_place_trans [OF 1 2] Some Shorthand Inr show ?thesis by simp
      qed
    next
      case NotObject
      with Some show ?thesis
        by (simp add: loop_table_def loop_heap_def in_place_refl filled_once_refl)
    qed
  qed
qed

subsection \<open>The loop of complete_\<delta>\<close>

lemma in_place_map_of_fwd:
  "in_place d d' \<Longrightarrow> map_of d k = Some e \<Longrightarrow>
   map_of d' k = Some e \<or> map_of d' k = Some (as_full e)"
  unfolding in_place_def
  by (induction d d' rule: list_all2_induct) (auto split: if_splits)

lemma complete_loop_in_place_Inr:
  assumes "complete_loop qs sigma ks d h = Inr (d', h')"
  shows "in_place d d'" and "filled_once sigma d h h' x"
  using complete_loop_in_place [of d qs sigma ks h] assms
  by (simp_all add: loop_table_def loop_heap_def)

lemma complete_loop_processed:
  "complete_loop qs sigma ks d h = Inr (d', h') \<Longrightarrow> k \<in> set ks \<Longrightarrow> map_of d k = Some e \<Longrightarrow>
   map_of d' k = Some (as_full e) \<and> e \<noteq> NotObject"
proof (induction ks arbitrary: d h e)
  case Nil
  then show ?case by simp
next
  case (Cons q rest)
  show ?case
  proof (cases "map_of d q")
    case None
    with Cons.prems have r: "complete_loop qs sigma rest d h = Inr (d', h')" and "k \<noteq> q"
      by (auto split: if_splits)
    with Cons.prems have "k \<in> set rest" by simp
    from Cons.IH [OF r this Cons.prems(3)] show ?thesis .
  next
    case (Some eq)
    show ?thesis
    proof (cases eq)
      case (Full p)
      with Some Cons.prems have r: "complete_loop qs sigma rest d h = Inr (d', h')" by simp
      show ?thesis
      proof (cases "k = q")
        case True
        with Some Full Cons.prems(3) have e: "e = Full p" by simp
        from in_place_map_of_fwd [OF complete_loop_in_place_Inr(1) [OF r] Cons.prems(3)] e
        show ?thesis by auto
      next
        case False
        with Cons.prems have "k \<in> set rest" by simp
        from Cons.IH [OF r this Cons.prems(3)] show ?thesis .
      qed
    next
      case (Shorthand p dflt)
      with Some Cons.prems obtain h1 where
        r: "complete_loop qs sigma rest (js_put q (Full p) d) h1 = Inr (d', h')"
        by (auto split: sum.splits)
      show ?thesis
      proof (cases "k = q")
        case True
        with Some Shorthand Cons.prems(3) have e: "e = Shorthand p dflt" by simp
        have "map_of (js_put q (Full p) d) q = Some (Full p)" by (simp add: map_of_js_put)
        from in_place_map_of_fwd [OF complete_loop_in_place_Inr(1) [OF r] this] e True
        show ?thesis by auto
      next
        case False
        with Cons.prems have "k \<in> set rest" by simp
        moreover from False Cons.prems(3) have "map_of (js_put q (Full p) d) k = Some e"
          by (simp add: map_of_js_put)
        ultimately show ?thesis using Cons.IH [OF r] by blast
      qed
    next
      case NotObject
      with Some Cons.prems show ?thesis by simp
    qed
  qed
qed

lemma pair_ok_filled:
  assumes "pair_ok qs sigma t d2" and "d1 \<in> set qs"
  shows "pair_ok qs sigma (filled sigma d1 t) d2"
proof -
  have "v \<in> set sigma \<and> (case map_of (filled sigma d1 t) v of None \<Rightarrow> False | Some s \<Rightarrow> s \<in> set qs)"
    if v: "v \<in> fst ` set (filled sigma d1 t)" for v
  proof (cases "map_of t v")
    case None
    then have "v \<notin> fst ` set t" by (simp add: map_of_eq_None_iff)
    with v have "v \<in> set sigma" "v \<noteq> proto_name" by (auto simp: keys_filled)
    with None assms(2) show ?thesis by (simp add: map_of_filled)
  next
    case (Some s)
    then have "v \<in> set (map fst t)" using map_of_eq_None_iff [of t v] by auto
    with assms(1) Some have "v \<in> set sigma" "s \<in> set qs" by (auto simp: pair_ok_def)
    with Some show ?thesis by (simp add: map_of_filled)
  qed
  with assms(1) show ?thesis by (simp add: pair_ok_def)
qed

lemma entry_valid_preserved:
  assumes "entry_valid qs sigma h e" and "dflt \<in> set qs"
  shows "entry_valid qs sigma (h(p := filled sigma dflt (h p))) e"
proof (cases e)
  case (Full x)
  with assms(1) show ?thesis
    by (auto simp: entry_valid_def map_of_filled split: option.splits)
next
  case (Shorthand x d2)
  with assms show ?thesis
    by (auto simp: entry_valid_def pair_ok_filled keys_filled)
next
  case NotObject
  with assms show ?thesis by (simp add: entry_valid_def)
qed

lemma entry_valid_after_fill:
  assumes "entry_valid qs sigma h (Shorthand p dflt)"
  shows "entry_valid qs sigma (h(p := filled sigma dflt (h p))) (Full p)"
proof -
  from assms have ok: "pair_ok qs sigma (h p) dflt"
    and pr: "proto_name \<in> set sigma \<longrightarrow> proto_name \<in> set (map fst (h p))"
    by (simp_all add: entry_valid_def)
  have "case map_of (filled sigma dflt (h p)) a of None \<Rightarrow> False | Some n \<Rightarrow> n \<in> set qs"
    if a: "a \<in> set sigma" for a
  proof (cases "map_of (h p) a")
    case None
    then have "a \<notin> set (map fst (h p))" by (simp add: map_of_eq_None_iff)
    with pr a have "a \<noteq> proto_name" by auto
    with None a ok show ?thesis by (simp add: map_of_filled pair_ok_def)
  next
    case (Some s)
    then have "a \<in> set (map fst (h p))" using map_of_eq_None_iff [of "h p" a] by auto
    with ok Some have "s \<in> set qs" by (auto simp: pair_ok_def)
    with Some show ?thesis by (simp add: map_of_filled)
  qed
  then show ?thesis by (simp add: entry_valid_def)
qed

lemma complete_loop_valid:
  "\<forall>x\<in>set d. entry_valid qs sigma h (snd x) \<Longrightarrow> set ks \<subseteq> fst ` set d \<Longrightarrow>
   \<exists>d' h'. complete_loop qs sigma ks d h = Inr (d', h') \<and>
           (\<forall>x\<in>set d'. entry_valid qs sigma h' (snd x))"
proof (induction ks arbitrary: d h)
  case Nil
  then show ?case by simp
next
  case (Cons q rest)
  from Cons.prems(2) have "q \<in> fst ` set d" by simp
  then obtain e where e: "map_of d q = Some e" using map_of_eq_None_iff [of d q] by auto
  then have mem: "(q, e) \<in> set d" by (rule map_of_SomeD)
  with Cons.prems(1) have v: "entry_valid qs sigma h e" by force
  from Cons.prems(2) have rest: "set rest \<subseteq> fst ` set d" by simp
  show ?case
  proof (cases e)
    case (Full p)
    with e Cons.IH [OF Cons.prems(1) rest] show ?thesis by simp
  next
    case (Shorthand p dflt)
    with v have ok: "pair_ok qs sigma (h p) dflt" by (simp add: entry_valid_def)
    then have dq: "dflt \<in> set qs" by (simp add: pair_ok_def)
    let ?h1 = "h(p := filled sigma dflt (h p))"
    let ?d1 = "js_put q (Full p) d"
    have c: "complete_state_transitions qs sigma h p dflt = Inr ?h1"
      using ok by (rule complete_state_transitions_ok)
    have "entry_valid qs sigma ?h1 (snd x)" if "x \<in> set ?d1" for x
    proof -
      from that set_js_put_present [OF e, of "Full p"] have "x = (q, Full p) \<or> x \<in> set d" by auto
      then show ?thesis
      proof
        assume "x = (q, Full p)"
        with entry_valid_after_fill [of qs sigma h p dflt] v Shorthand show ?thesis by simp
      next
        assume "x \<in> set d"
        with Cons.prems(1) have "entry_valid qs sigma h (snd x)" by blast
        then show ?thesis using dq by (rule entry_valid_preserved)
      qed
    qed
    moreover have "set rest \<subseteq> fst ` set ?d1" using rest by (auto simp: keys_js_put)
    ultimately obtain d' h' where "complete_loop qs sigma rest ?d1 ?h1 = Inr (d', h')"
      "\<forall>x\<in>set d'. entry_valid qs sigma h' (snd x)"
      using Cons.IH [of ?d1 ?h1] by blast
    with e Shorthand c show ?thesis by simp
  next
    case NotObject
    with v show ?thesis by (simp add: entry_valid_def)
  qed
qed

lemma complete_loop_not_MissingEntry:
  "complete_loop qs sigma ks d h \<noteq> Inl (MissingEntry s, t, g)"
proof (induction ks arbitrary: d h)
  case Nil
  show ?case by simp
next
  case (Cons q rest)
  show ?case
  proof (cases "map_of d q")
    case None
    with Cons.IH show ?thesis by simp
  next
    case (Some e)
    show ?thesis
    proof (cases e)
      case (Full m)
      with Some Cons.IH show ?thesis by simp
    next
      case (Shorthand m dflt)
      show ?thesis
      proof (cases "complete_state_transitions qs sigma h m dflt")
        case (Inl err)
        from complete_state_transitions_error [OF this] have "err \<noteq> MissingEntry s" by auto
        with Some Shorthand Inl show ?thesis by simp
      next
        case (Inr m')
        with Some Shorthand Cons.IH show ?thesis by simp
      qed
    next
      case NotObject
      with Some show ?thesis by simp
    qed
  qed
qed

subsection \<open>The final check\<close>

lemma target_ok_iff:
  "target_ok rt h qs t a \<longleftrightarrow> (\<exists>n. tval_get rt h t a = Some (Str n) \<and> n \<in> set qs)"
  by (auto simp: target_ok_def split: option.splits jsval.splits)

lemma check_symbols_step:
  "tval_get rt h t a = Some (Str n) \<Longrightarrow> n \<in> set qs \<Longrightarrow>
   check_symbols rt h qs s t b (a # sig) = check_symbols rt h qs s t (b \<and> n = s) sig"
  by auto

lemma check_symbols_ok:
  "\<forall>a\<in>set sig. target_ok rt h qs t a \<Longrightarrow>
   check_symbols rt h qs s t b sig = Inr (b \<and> (\<forall>a\<in>set sig. tval_get rt h t a = Some (Str s)))"
proof (induction sig arbitrary: b)
  case Nil
  show ?case by simp
next
  case (Cons a sig)
  from Cons.prems obtain n where n: "tval_get rt h t a = Some (Str n)" "n \<in> set qs"
    by (auto simp: target_ok_iff)
  from Cons.prems have "\<forall>a\<in>set sig. target_ok rt h qs t a" by simp
  from Cons.IH [OF this, of "b \<and> n = s"] n show ?case
    unfolding check_symbols_step [OF n] by auto
qed

lemma check_symbols_Inr:
  "check_symbols rt h qs s t b sig = Inr b' \<Longrightarrow> \<forall>a\<in>set sig. target_ok rt h qs t a"
proof (induction sig arbitrary: b)
  case Nil
  then show ?case by simp
next
  case (Cons a sig)
  from Cons.prems obtain n where n: "tval_get rt h t a = Some (Str n)" "n \<in> set qs"
    by (auto split: option.splits jsval.splits if_splits)
  from Cons.prems have r: "check_symbols rt h qs s t (b \<and> n = s) sig = Inr b'"
    unfolding check_symbols_step [OF n] .
  from n have "target_ok rt h qs t a" by (simp add: target_ok_iff)
  with Cons.IH [OF r] show ?case by simp
qed

lemma check_symbols_not_MissingEntry:
  "check_symbols rt h qs s t b sig \<noteq> Inl (MissingEntry x)"
  by (induction sig arbitrary: b) (auto split: option.splits jsval.splits)

lemma check_symbols_cong:
  "\<forall>a\<in>set sig. tval_get rt h t a = tval_get rt h' t' a \<Longrightarrow>
   check_symbols rt h qs s t b sig = check_symbols rt h' qs s t' b sig"
  by (induction sig arbitrary: b) (auto split: option.splits jsval.splits)

lemma check_states_Inr:
  "check_states rt h qs sig d sinks rest = Inr sinks' \<Longrightarrow>
   (\<forall>s\<in>set rest. \<forall>a\<in>set sig. \<exists>n. \<delta>_at rt h d s a = Some n \<and> n \<in> set qs) \<and>
   sinks' = sinks @ filter (is_sink rt h sig d) rest"
proof (induction rest arbitrary: sinks)
  case Nil
  then show ?case by simp
next
  case (Cons s rest)
  from Cons.prems obtain t b where t: "table_get d s = Some t"
    and b: "check_symbols rt h qs s t True sig = Inr b"
    and r: "check_states rt h qs sig d (if b then sinks @ [s] else sinks) rest = Inr sinks'"
    by (auto split: option.splits sum.splits)
  from check_symbols_Inr [OF b] have ok: "\<forall>a\<in>set sig. target_ok rt h qs t a" .
  with b have bv: "b = (\<forall>a\<in>set sig. tval_get rt h t a = Some (Str s))"
    by (simp add: check_symbols_ok)
  have at: "\<delta>_at rt h d s a = Some n \<longleftrightarrow> tval_get rt h t a = Some (Str n)" for a n
    using t by (auto simp: \<delta>_at_def split: option.splits jsval.splits)
  have sink: "is_sink rt h sig d s = b" unfolding bv is_sink_def at ..
  have tot: "\<forall>a\<in>set sig. \<exists>n. \<delta>_at rt h d s a = Some n \<and> n \<in> set qs"
    using ok unfolding at target_ok_iff .
  from Cons.IH [OF r] sink tot show ?case by auto
qed

lemma check_states_cong:
  "\<forall>s\<in>set rest. rel_option (\<lambda>t t'. \<forall>a\<in>set sig. tval_get rt h t a = tval_get rt h' t' a)
        (table_get d s) (table_get d' s) \<Longrightarrow>
   check_states rt h qs sig d sinks rest = check_states rt h' qs sig d' sinks rest"
proof (induction rest arbitrary: sinks)
  case Nil
  then show ?case by simp
next
  case (Cons s rest)
  from Cons.prems have rel: "rel_option (\<lambda>t t'. \<forall>a\<in>set sig. tval_get rt h t a = tval_get rt h' t' a)
        (table_get d s) (table_get d' s)" by simp
  have ih: "\<And>sk. check_states rt h qs sig d sk rest = check_states rt h' qs sig d' sk rest"
    using Cons.IH Cons.prems by simp
  show ?case
  proof (cases "table_get d s")
    case None
    with rel have "table_get d' s = None" by simp
    with None show ?thesis by simp
  next
    case (Some t)
    with rel obtain t' where t': "table_get d' s = Some t'"
      and eq: "\<forall>a\<in>set sig. tval_get rt h t a = tval_get rt h' t' a"
      by (auto simp: option_rel_Some1)
    from eq have "check_symbols rt h qs s t True sig = check_symbols rt h' qs s t' True sig"
      by (rule check_symbols_cong)
    with ih Some t' show ?thesis by (simp split: sum.splits)
  qed
qed

lemma check_states_missing:
  "check_states rt h qs sig d sinks rest = Inl (MissingEntry s) \<Longrightarrow>
   find (\<lambda>s. table_get d s = None) rest = Some s"
proof (induction rest arbitrary: sinks)
  case Nil
  then show ?case by simp
next
  case (Cons x rest)
  then show ?case
    by (auto split: option.splits sum.splits simp: check_symbols_not_MissingEntry)
qed

lemma check_states_Inr_entries:
  "check_states rt h qs sig d sinks rest = Inr sinks' \<Longrightarrow> \<forall>s\<in>set rest. table_get d s \<noteq> None"
  by (induction rest arbitrary: sinks) (auto split: option.splits sum.splits)

lemma check_states_first_missing:
  "find (\<lambda>s. table_get d s = None) rest = Some s \<Longrightarrow>
   \<forall>x\<in>set rest. \<forall>t. table_get d x = Some t \<longrightarrow> (\<forall>a\<in>set sig. target_ok rt h qs t a) \<Longrightarrow>
   check_states rt h qs sig d sinks rest = Inl (MissingEntry s)"
proof (induction rest arbitrary: sinks)
  case Nil
  then show ?case by simp
next
  case (Cons x rest)
  show ?case
  proof (cases "table_get d x")
    case None
    with Cons.prems show ?thesis by simp
  next
    case (Some t)
    with Cons.prems have ok: "\<forall>a\<in>set sig. target_ok rt h qs t a" by simp
    from Some Cons.prems have f: "find (\<lambda>s. table_get d s = None) rest = Some s" by simp
    from Cons.prems have
      "\<forall>x\<in>set rest. \<forall>t. table_get d x = Some t \<longrightarrow> (\<forall>a\<in>set sig. target_ok rt h qs t a)"
      by simp
    from Cons.IH [OF f this] Some check_symbols_ok [OF ok] show ?thesis by simp
  qed
qed

lemma table_get_None_iff:
  "table_get d s = None \<longleftrightarrow> map_of d s = None \<and> s \<notin> set Object_prototype_names"
  by (simp add: table_get_def split: option.splits)

subsection \<open>The constructor and the scan\<close>

lemma complete_delta_Inr:
  assumes "complete_\<delta> qs sigma d h = Inr (d', h')"
  shows "fst ` set d \<subseteq> set qs"
    and "complete_loop qs sigma (map fst d) d h = Inr (d', h')"
    and "in_place d d'"
    and "\<forall>k e. map_of d k = Some e \<longrightarrow> map_of d' k = Some (as_full e) \<and> e \<noteq> NotObject"
proof -
  from assms obtain ks where ks: "map_validate (validate_state qs) (map fst d) = Inr ks"
    and l: "complete_loop qs sigma ks d h = Inr (d', h')"
    by (auto simp: complete_\<delta>_def split: sum.splits)
  from map_validate_Inr [OF ks] have kk: "ks = map fst d"
    and v: "\<forall>x\<in>set (map fst d). validate_state qs x = Inr ()" by auto
  from v show "fst ` set d \<subseteq> set qs" by (auto simp: validate_state_iff)
  from l kk show l': "complete_loop qs sigma (map fst d) d h = Inr (d', h')" by simp
  from l' show "in_place d d'" by (rule complete_loop_in_place_Inr)
  show "\<forall>k e. map_of d k = Some e \<longrightarrow> map_of d' k = Some (as_full e) \<and> e \<noteq> NotObject"
  proof (intro allI impI)
    fix k e assume e: "map_of d k = Some e"
    then have "k \<in> set (map fst d)" using map_of_eq_None_iff [of d k] by auto
    from complete_loop_processed [OF l' this e]
    show "map_of d' k = Some (as_full e) \<and> e \<noteq> NotObject" .
  qed
qed

lemma complete_delta_Full:
  assumes "complete_\<delta> qs sigma d h = Inr (d', h')" and "map_of d' k = Some e"
  shows "\<exists>p. e = Full p"
proof -
  note c = complete_delta_Inr [OF assms(1)]
  from in_place_map_of [OF c(3) assms(2)] obtain e0 where e0: "map_of d k = Some e0" by blast
  with c(4) have "map_of d' k = Some (as_full e0)" "e0 \<noteq> NotObject" by auto
  with assms(2) show ?thesis by (cases e0) auto
qed

lemma complete_delta_valid:
  assumes "fst ` set d \<subseteq> set qs" and "\<forall>x\<in>set d. entry_valid qs sigma h (snd x)"
  shows "\<exists>d' h'. complete_\<delta> qs sigma d h = Inr (d', h') \<and>
                 (\<forall>x\<in>set d'. entry_valid qs sigma h' (snd x))"
proof -
  have "\<forall>x\<in>set (map fst d). validate_state qs x = Inr ()"
    using assms(1) by (auto simp: validate_state_iff)
  then have "map_validate (validate_state qs) (map fst d) = Inr (map fst d)"
    by (rule map_validate_ok)
  moreover have "set (map fst d) \<subseteq> fst ` set d" by simp
  from complete_loop_valid [OF assms(2) this]
  obtain d' h' where "complete_loop qs sigma (map fst d) d h = Inr (d', h')"
    "\<forall>x\<in>set d'. entry_valid qs sigma h' (snd x)" by blast
  ultimately show ?thesis by (simp add: complete_\<delta>_def)
qed

lemma complete_delta_not_MissingEntry:
  "complete_\<delta> qs sigma d h \<noteq> Inl (MissingEntry s, t, g)"
proof (cases "map_validate (validate_state qs) (map fst d)")
  case (Inl e)
  from map_validate_Inl [OF this] obtain x where "validate_state qs x = Inl e" by blast
  then have "e \<noteq> MissingEntry s" by (auto simp: validate_state_def split: if_splits)
  with Inl show ?thesis by (simp add: complete_\<delta>_def)
next
  case (Inr ks)
  with complete_loop_not_MissingEntry show ?thesis by (simp add: complete_\<delta>_def)
qed

lemma validate_not_MissingEntry:
  "validate_state qs x \<noteq> Inl (MissingEntry s)"
  "map_validate (validate_state qs) xs \<noteq> Inl (MissingEntry s)"
proof -
  show "validate_state qs x \<noteq> Inl (MissingEntry s)" by (simp add: validate_state_def)
  show "map_validate (validate_state qs) xs \<noteq> Inl (MissingEntry s)"
  proof
    assume "map_validate (validate_state qs) xs = Inl (MissingEntry s)"
    from map_validate_Inl [OF this] obtain x where "validate_state qs x = Inl (MissingEntry s)"
      by blast
    then show False by (simp add: validate_state_def split: if_splits)
  qed
qed

lemma constructor_Inr:
  assumes "constructor rt h qs sigma d q_init fs lbl = Inr (A, h')"
  obtains d' sinks where
    "complete_\<delta> (dedup qs) (dedup sigma) d h = Inr (d', h')"
    "q_init \<in> set qs" "set fs \<subseteq> set qs"
    "\<delta>_final_check rt h' (dedup qs) (dedup sigma) d' = Inr sinks"
    "A = \<lparr>Q = dedup qs, \<Sigma> = dedup sigma, \<delta> = d', q0 = q_init, F = dedup fs,
          sink_nodes = sinks, label = lbl\<rparr>"
proof -
  from assms obtain d' g where d': "complete_\<delta> (dedup qs) (dedup sigma) d h = Inr (d', g)"
    by (auto simp: constructor_def split: sum.splits prod.splits)
  from assms d' have q: "validate_state (dedup qs) q_init = Inr ()"
    by (auto simp: constructor_def split: sum.splits)
  from assms d' q obtain fs' where fs': "map_validate (validate_state (dedup qs)) (dedup fs) = Inr fs'"
    by (auto simp: constructor_def split: sum.splits)
  from assms d' q fs' obtain sinks where s: "\<delta>_final_check rt g (dedup qs) (dedup sigma) d' = Inr sinks"
    by (auto simp: constructor_def split: sum.splits)
  from map_validate_Inr [OF fs'] have f1: "fs' = dedup fs"
    and f2: "\<forall>x\<in>set (dedup fs). validate_state (dedup qs) x = Inr ()" by auto
  have "A = \<lparr>Q = dedup qs, \<Sigma> = dedup sigma, \<delta> = d', q0 = q_init, F = dedup fs,
          sink_nodes = sinks, label = lbl\<rparr>" and g: "g = h'"
    using assms d' q fs' s f1 by (simp_all add: constructor_def)
  moreover have "q_init \<in> set qs" using q by (simp add: validate_state_iff set_dedup)
  moreover have "set fs \<subseteq> set qs" using f2 by (auto simp: validate_state_iff set_dedup)
  ultimately show ?thesis using that d' s by blast
qed

lemma constructor_ok:
  assumes "complete_\<delta> (dedup qs) (dedup sigma) d h = Inr (d', h')"
    and "q_init \<in> set qs" and "set fs \<subseteq> set qs"
    and "\<delta>_final_check rt h' (dedup qs) (dedup sigma) d' = Inr sinks"
  shows "constructor rt h qs sigma d q_init fs lbl =
     Inr (\<lparr>Q = dedup qs, \<Sigma> = dedup sigma, \<delta> = d', q0 = q_init, F = dedup fs,
           sink_nodes = sinks, label = lbl\<rparr>, h')"
proof -
  have "validate_state (dedup qs) q_init = Inr ()"
    using assms(2) by (simp add: validate_state_iff set_dedup)
  moreover have "map_validate (validate_state (dedup qs)) (dedup fs) = Inr (dedup fs)"
    using assms(3) by (intro map_validate_ok) (auto simp: validate_state_iff set_dedup)
  ultimately show ?thesis using assms(1,4) by (simp add: constructor_def)
qed

lemma constructor_well_formed:
  assumes "constructor rt h qs sigma d q_init fs lbl = Inr (A, h')"
  shows "well_formed rt h' A"
proof -
  from assms obtain d' sinks where
    q: "q_init \<in> set qs" and
    s: "\<delta>_final_check rt h' (dedup qs) (dedup sigma) d' = Inr sinks" and
    A: "A = \<lparr>Q = dedup qs, \<Sigma> = dedup sigma, \<delta> = d', q0 = q_init, F = dedup fs,
          sink_nodes = sinks, label = lbl\<rparr>"
    by (rule constructor_Inr)
  from s have "check_states rt h' (dedup qs) (dedup sigma) d' [] (dedup qs) = Inr sinks"
    by (simp add: \<delta>_final_check_def)
  from check_states_Inr [OF this] q A show ?thesis
    by (simp add: well_formed_def set_dedup)
qed

lemma plain_fold_sink:
  "is_sink rt h sig d s \<Longrightarrow> set parsed \<subseteq> set sig \<Longrightarrow> plain_fold rt h d s parsed = Some s"
  by (induction parsed) (auto simp: is_sink_def)

lemma scan_step:
  "\<delta>_at rt h (\<delta> A) s a = Some n \<Longrightarrow> s \<notin> set (sink_nodes A) \<Longrightarrow>
   scan rt h A s (a # parsed) = scan rt h A n parsed"
  by (auto simp: \<delta>_at_def split: option.splits jsval.splits)

lemma scan_plain_fold:
  assumes "well_formed rt h A"
  shows "s \<in> set (Q A) \<Longrightarrow> set parsed \<subseteq> set (\<Sigma> A) \<Longrightarrow>
    \<exists>s'. scan rt h A s parsed = Inr s' \<and> s' \<in> set (Q A) \<and>
         plain_fold rt h (\<delta> A) s parsed = Some s'"
proof (induction parsed arbitrary: s)
  case Nil
  then show ?case by simp
next
  case (Cons a parsed)
  show ?case
  proof (cases "s \<in> set (sink_nodes A)")
    case True
    with assms have "is_sink rt h (\<Sigma> A) (\<delta> A) s" by (simp add: well_formed_def)
    from plain_fold_sink [OF this Cons.prems(2)] True Cons.prems(1) show ?thesis by simp
  next
    case False
    from Cons.prems have "a \<in> set (\<Sigma> A)" by simp
    with assms Cons.prems(1) have "\<exists>n. \<delta>_at rt h (\<delta> A) s a = Some n \<and> n \<in> set (Q A)"
      unfolding well_formed_def by blast
    then obtain n where n: "\<delta>_at rt h (\<delta> A) s a = Some n" "n \<in> set (Q A)" by blast
    from Cons.prems have "set parsed \<subseteq> set (\<Sigma> A)" by simp
    from Cons.IH [OF n(2) this] n(1) show ?thesis
      unfolding scan_step [OF n(1) False] by simp
  qed
qed

lemma validate_input_ok:
  "\<forall>c\<in>set input. [c] \<in> set sig \<Longrightarrow> validate_input sig input = Inr (map (\<lambda>c. [c]) input)"
  unfolding validate_input_def by (rule map_validate_ok) (auto simp: validate_char_iff)

lemma validate_input_bad:
  "find (\<lambda>c. [c] \<notin> set sig) input = Some c \<Longrightarrow> validate_input sig input = Inl (SymbolNotInSigma [c])"
  unfolding validate_input_def
  by (induction input) (auto simp: validate_char_def split: if_splits)

lemma read_plain_fold:
  assumes "well_formed rt h A" and ok: "\<forall>c\<in>set input. [c] \<in> set (\<Sigma> A)"
  shows "\<exists>s. read rt h A input = Inr s \<and> s \<in> set (Q A) \<and>
             plain_fold rt h (\<delta> A) (q0 A) (map (\<lambda>c. [c]) input) = Some s"
proof -
  from ok have v: "validate_input (\<Sigma> A) input = Inr (map (\<lambda>c. [c]) input)"
    by (rule validate_input_ok)
  from assms(1) have "q0 A \<in> set (Q A)" by (simp add: well_formed_def)
  moreover from ok have "set (map (\<lambda>c. [c]) input) \<subseteq> set (\<Sigma> A)" by auto
  ultimately obtain s' where "scan rt h A (q0 A) (map (\<lambda>c. [c]) input) = Inr s'" "s' \<in> set (Q A)"
    "plain_fold rt h (\<delta> A) (q0 A) (map (\<lambda>c. [c]) input) = Some s'"
    using scan_plain_fold [OF assms(1)] by blast
  with v show ?thesis by (simp add: read_def)
qed

lemma read_bad_symbol:
  assumes "\<exists>c\<in>set input. [c] \<notin> set (\<Sigma> A)"
  shows "\<exists>c. find (\<lambda>c. [c] \<notin> set (\<Sigma> A)) input = Some c \<and>
             read rt h A input = Inl (SymbolNotInSigma [c])"
proof -
  from assms obtain c where c: "find (\<lambda>c. [c] \<notin> set (\<Sigma> A)) input = Some c"
    by (cases "find (\<lambda>c. [c] \<notin> set (\<Sigma> A)) input") (auto simp: find_None_iff)
  then have "validate_input (\<Sigma> A) input = Inl (SymbolNotInSigma [c])"
    by (rule validate_input_bad)
  with c show ?thesis by (simp add: read_def)
qed

lemma complete_loop_no_shorthand:
  "\<forall>x\<in>set d. \<exists>p. snd x = Full p \<Longrightarrow> set ks \<subseteq> fst ` set d \<Longrightarrow>
   complete_loop qs sigma ks d h = Inr (d, h)"
proof (induction ks)
  case Nil
  show ?case by simp
next
  case (Cons q rest)
  from Cons.prems(2) have "q \<in> fst ` set d" by simp
  then obtain e where e: "map_of d q = Some e" using map_of_eq_None_iff [of d q] by auto
  then have "(q, e) \<in> set d" by (rule map_of_SomeD)
  with Cons.prems(1) obtain p where "e = Full p" by force
  with e Cons show ?case by simp
qed

lemma complete_delta_no_shorthand:
  assumes "\<forall>x\<in>set d. \<exists>p. snd x = Full p" and "fst ` set d \<subseteq> set qs"
  shows "complete_\<delta> qs sigma d h = Inr (d, h)"
proof -
  have "\<forall>x\<in>set (map fst d). validate_state qs x = Inr ()"
    using assms(2) by (auto simp: validate_state_iff)
  then have "map_validate (validate_state qs) (map fst d) = Inr (map fst d)"
    by (rule map_validate_ok)
  moreover have "complete_loop qs sigma (map fst d) d h = Inr (d, h)"
    using assms(1) by (rule complete_loop_no_shorthand) simp
  ultimately show ?thesis by (simp add: complete_\<delta>_def)
qed

subsection \<open>The automata of the tests\<close>

lemma outcome_Inr: "outcome r = Inr A \<Longrightarrow> r = Inr (A, heap_after r)"
  by (auto simp: outcome_def heap_after_def split: sum.splits prod.splits)

lemma A001_constructed:
  "constructor rt A001_maps [''q0'', ''q1'', ''e''] [''0'', ''1''] A001_\<delta> ''q0'' [''q0'', ''q1'']
     ''0+(01)*(0+E)'' = Inr (A001, A001_maps)"
proof -
  have d: "dedup [''q0'', ''q1'', ''e''] = [''q0'', ''q1'', ''e'']" "dedup [''0'', ''1''] = [''0'', ''1'']"
    "dedup [''q0'', ''q1''] = [''q0'', ''q1'']"
    by code_simp+
  have "complete_\<delta> [''q0'', ''q1'', ''e''] [''0'', ''1''] A001_\<delta> A001_maps = Inr (A001_\<delta>, A001_maps)"
    by (rule complete_delta_no_shorthand) (simp_all add: A001_\<delta>_def)
  moreover have "\<delta>_final_check rt A001_maps [''q0'', ''q1'', ''e''] [''0'', ''1''] A001_\<delta> = Inr [''e'']"
    by code_simp
  ultimately show ?thesis
    using constructor_ok [of "[''q0'', ''q1'', ''e'']" "[''0'', ''1'']" A001_\<delta> A001_maps
        A001_\<delta> A001_maps "''q0''" "[''q0'', ''q1'']" rt "[''e'']" "''0+(01)*(0+E)''"]
    unfolding d by (simp add: A001_def)
qed

lemma A001_short_constructed:
  "outcome (constructor no_properties A001_short_maps [''q0'', ''q1'', ''e''] [''0'', ''1''] A001_short
     ''q0'' [''q0'', ''q1''] ''0+(01)*(0+E)'') = Inr A001"
  by code_simp

subsection \<open>What the constructor leaves behind\<close>

lemma table_after_constructor:
  "table_after (constructor rt h qs sigma d q_init fs lbl) =
     loop_table (complete_\<delta> (dedup qs) (dedup sigma) d h)"
  by (auto simp: table_after_def loop_table_def constructor_def split: sum.splits prod.splits)

lemma heap_after_constructor:
  "heap_after (constructor rt h qs sigma d q_init fs lbl) =
     loop_heap (complete_\<delta> (dedup qs) (dedup sigma) d h)"
  by (auto simp: heap_after_def loop_heap_def constructor_def split: sum.splits prod.splits)

lemma complete_delta_in_place:
  "in_place d (loop_table (complete_\<delta> qs sigma d h)) \<and>
   (\<forall>x. filled_once sigma d h (loop_heap (complete_\<delta> qs sigma d h)) x)"
proof (cases "map_validate (validate_state qs) (map fst d)")
  case (Inl e)
  then show ?thesis
    by (simp add: complete_\<delta>_def loop_table_def loop_heap_def in_place_refl filled_once_refl)
next
  case (Inr ks)
  with complete_loop_in_place [of d qs sigma ks h] show ?thesis
    by (simp add: complete_\<delta>_def)
qed

lemma filled_once_no_shorthand:
  assumes "\<forall>x\<in>set d. \<forall>p dflt. snd x \<noteq> Shorthand p dflt" and "filled_once sigma d h h' x"
  shows "h' x = h x"
proof -
  have "defaults_at d x = []"
  proof (rule ccontr)
    assume "defaults_at d x \<noteq> []"
    then obtain dflt where "dflt \<in> set (defaults_at d x)" by (cases "defaults_at d x") auto
    then obtain k where "(k, Shorthand x dflt) \<in> set d" by (auto simp: defaults_at_mem)
    with assms(1) show False by force
  qed
  with assms(2) show ?thesis by (simp add: filled_once_def)
qed

lemma undefined_in_table_get: "undefined_in d s \<longleftrightarrow> table_get d s = None"
  by (simp add: undefined_in_def table_get_None_iff)

lemma in_place_undefined_in: "in_place d d' \<Longrightarrow> undefined_in d' = undefined_in d"
  by (simp add: fun_eq_iff undefined_in_def in_place_map_of_None)

lemma constructor_MissingEntry:
  assumes "constructor rt h qs sigma d q_init fs lbl = Inl (MissingEntry s, t, g)"
  shows "\<exists>d' h'. complete_\<delta> (dedup qs) (dedup sigma) d h = Inr (d', h') \<and>
           \<delta>_final_check rt h' (dedup qs) (dedup sigma) d' = Inl (MissingEntry s)"
  using assms complete_delta_not_MissingEntry [of "dedup qs" "dedup sigma" d h s]
    validate_not_MissingEntry [of "dedup qs" _ s]
  by (auto simp: constructor_def split: sum.splits prod.splits)

subsection \<open>Two runs that differ in one entry\<close>

lemma complete_state_transitions_heap:
  assumes "complete_state_transitions qs sigma h x dd = Inr h1" and "h2 x = h x"
  shows "complete_state_transitions qs sigma h2 x dd = Inr (h2(x := filled sigma dd (h x)))"
proof -
  from complete_state_transitions_Inr(1) [OF assms(1)] assms(2)
  have "pair_ok qs sigma (h2 x) dd" by simp
  then have "complete_state_transitions qs sigma h2 x dd = Inr (h2(x := filled sigma dd (h2 x)))"
    by (rule complete_state_transitions_ok)
  with assms(2) show ?thesis by simp
qed

lemma complete_loop_untouched:
  "complete_loop qs sigma ks d h = Inr (d', h') \<Longrightarrow>
   \<forall>k x dd. k \<in> set ks \<longrightarrow> map_of d k = Some (Shorthand x dd) \<longrightarrow> x \<noteq> p \<Longrightarrow>
   h' p = h p"
proof (induction ks arbitrary: d h)
  case Nil
  then show ?case by simp
next
  case (Cons q rest)
  from Cons.prems(2)
  have rp: "\<forall>k x dd. k \<in> set rest \<longrightarrow> map_of d k = Some (Shorthand x dd) \<longrightarrow> x \<noteq> p"
    by simp
  show ?case
  proof (cases "map_of d q")
    case None
    with Cons.prems have r: "complete_loop qs sigma rest d h = Inr (d', h')"
      by (auto split: if_splits)
    from Cons.IH [OF r rp] show ?thesis .
  next
    case (Some e)
    show ?thesis
    proof (cases e)
      case (Full x)
      with Some Cons.prems have r: "complete_loop qs sigma rest d h = Inr (d', h')" by simp
      from Cons.IH [OF r rp] show ?thesis .
    next
      case (Shorthand x dd)
      with Some Cons.prems(2) have xp: "x \<noteq> p" by simp
      from Some Shorthand Cons.prems(1) obtain h1 where
        c: "complete_state_transitions qs sigma h x dd = Inr h1" and
        r: "complete_loop qs sigma rest (js_put q (Full x) d) h1 = Inr (d', h')"
        by (auto split: sum.splits)
      from complete_state_transitions_Inr(2) [OF c] xp have h1: "h1 p = h p" by simp
      have "\<forall>k y dd. k \<in> set rest \<longrightarrow> map_of (js_put q (Full x) d) k = Some (Shorthand y dd) \<longrightarrow> y \<noteq> p"
        using Cons.prems(2) by (auto simp: map_of_js_put split: if_splits)
      from Cons.IH [OF r this] h1 show ?thesis by simp
    next
      case NotObject
      with Some Cons.prems show ?thesis by simp
    qed
  qed
qed

lemma complete_loop_filled:
  "complete_loop qs sigma ks d h = Inr (d', h') \<Longrightarrow> q \<in> set ks \<Longrightarrow>
   map_of d q = Some (Shorthand p dflt) \<Longrightarrow>
   \<forall>k x dd. k \<noteq> q \<longrightarrow> map_of d k = Some (Shorthand x dd) \<longrightarrow> x \<noteq> p \<Longrightarrow>
   h' p = filled sigma dflt (h p)"
proof (induction ks arbitrary: d h)
  case Nil
  then show ?case by simp
next
  case (Cons k rest)
  show ?case
  proof (cases "k = q")
    case True
    with Cons.prems(1,3) obtain h1 where
      c: "complete_state_transitions qs sigma h p dflt = Inr h1" and
      r: "complete_loop qs sigma rest (js_put q (Full p) d) h1 = Inr (d', h')"
      by (auto split: sum.splits)
    have "\<forall>k y dd. k \<in> set rest \<longrightarrow> map_of (js_put q (Full p) d) k = Some (Shorthand y dd) \<longrightarrow> y \<noteq> p"
      using Cons.prems(4) by (auto simp: map_of_js_put split: if_splits)
    from complete_loop_untouched [OF r this] complete_state_transitions_Inr(2) [OF c]
    show ?thesis by simp
  next
    case False
    with Cons.prems(2) have qr: "q \<in> set rest" by simp
    show ?thesis
    proof (cases "map_of d k")
      case None
      with Cons.prems have r: "complete_loop qs sigma rest d h = Inr (d', h')"
        by (auto split: if_splits)
      from Cons.IH [OF r qr Cons.prems(3,4)] show ?thesis .
    next
      case (Some e)
      show ?thesis
      proof (cases e)
        case (Full x)
        with Some Cons.prems have r: "complete_loop qs sigma rest d h = Inr (d', h')" by simp
        from Cons.IH [OF r qr Cons.prems(3,4)] show ?thesis .
      next
        case (Shorthand x dd)
        with Some Cons.prems(4) False have xp: "x \<noteq> p" by blast
        from Some Shorthand Cons.prems(1) obtain h1 where
          c: "complete_state_transitions qs sigma h x dd = Inr h1" and
          r: "complete_loop qs sigma rest (js_put k (Full x) d) h1 = Inr (d', h')"
          by (auto split: sum.splits)
        from complete_state_transitions_Inr(2) [OF c] xp have h1: "h1 p = h p" by simp
        have m: "map_of (js_put k (Full x) d) q = Some (Shorthand p dflt)"
          using Cons.prems(3) False by (simp add: map_of_js_put)
        have "\<forall>k' y dd. k' \<noteq> q \<longrightarrow> map_of (js_put k (Full x) d) k' = Some (Shorthand y dd) \<longrightarrow> y \<noteq> p"
          using Cons.prems(4) by (auto simp: map_of_js_put split: if_splits)
        from Cons.IH [OF r qr m this] h1 show ?thesis by simp
      next
        case NotObject
        with Some Cons.prems show ?thesis by simp
      qed
    qed
  qed
qed

lemma complete_loop_twin:
  "complete_loop qs sigma ks d h = Inr (d', h') \<Longrightarrow>
   map_of d2 q = Some (Full m) \<Longrightarrow>
   \<exists>e. map_of d q = Some e \<and> entry_addr e = Some p \<Longrightarrow>
   \<forall>k. k \<noteq> q \<longrightarrow> map_of d2 k = map_of d k \<Longrightarrow>
   \<forall>k e. k \<noteq> q \<longrightarrow> map_of d k = Some e \<longrightarrow> entry_addr e \<noteq> Some p \<and> entry_addr e \<noteq> Some m \<Longrightarrow>
   \<forall>x. x \<noteq> p \<longrightarrow> x \<noteq> m \<longrightarrow> h2 x = h x \<Longrightarrow>
   \<exists>d2' h2'. complete_loop qs sigma ks d2 h2 = Inr (d2', h2') \<and>
             map_of d2' q = Some (Full m) \<and>
             (\<forall>k. k \<noteq> q \<longrightarrow> map_of d2' k = map_of d' k) \<and>
             (\<forall>x. x \<noteq> p \<longrightarrow> x \<noteq> m \<longrightarrow> h2' x = h' x) \<and> h2' m = h2 m"
proof (induction ks arbitrary: d h d2 h2)
  case Nil
  then show ?case by simp
next
  case (Cons k rest)
  show ?case
  proof (cases "k = q")
    case True
    from Cons.prems(3) obtain e where e: "map_of d q = Some e" "entry_addr e = Some p" by blast
    show ?thesis
    proof (cases e)
      case (Full x)
      with e have x: "x = p" by simp
      from e Full True Cons.prems(1) have r: "complete_loop qs sigma rest d h = Inr (d', h')"
        by simp
      from Cons.IH [OF r Cons.prems(2-6)] True Cons.prems(2) show ?thesis by simp
    next
      case (Shorthand x dd)
      with e have x: "x = p" by simp
      from e Shorthand x True Cons.prems(1) obtain h1 where
        c: "complete_state_transitions qs sigma h p dd = Inr h1" and
        r: "complete_loop qs sigma rest (js_put q (Full p) d) h1 = Inr (d', h')"
        by (auto split: sum.splits)
      have a: "\<exists>e. map_of (js_put q (Full p) d) q = Some e \<and> entry_addr e = Some p"
        by (simp add: map_of_js_put)
      have b: "\<forall>k. k \<noteq> q \<longrightarrow> map_of d2 k = map_of (js_put q (Full p) d) k"
        using Cons.prems(4) by (simp add: map_of_js_put)
      have cc: "\<forall>k e. k \<noteq> q \<longrightarrow> map_of (js_put q (Full p) d) k = Some e \<longrightarrow>
          entry_addr e \<noteq> Some p \<and> entry_addr e \<noteq> Some m"
        using Cons.prems(5) by (simp add: map_of_js_put)
      have dd: "\<forall>x. x \<noteq> p \<longrightarrow> x \<noteq> m \<longrightarrow> h2 x = h1 x"
        using Cons.prems(6) complete_state_transitions_Inr(2) [OF c] by simp
      from Cons.IH [OF r Cons.prems(2) a b cc dd] True Cons.prems(2) show ?thesis by simp
    next
      case NotObject
      with e show ?thesis by simp
    qed
  next
    case False
    with Cons.prems(4) have same: "map_of d2 k = map_of d k" by simp
    show ?thesis
    proof (cases "map_of d k")
      case None
      with Cons.prems(1) have kp: "k = proto_name" and
        r: "complete_loop qs sigma rest d h = Inr (d', h')"
        by (auto split: if_splits)
      from Cons.IH [OF r Cons.prems(2-6)] None same kp show ?thesis by simp
    next
      case (Some e)
      show ?thesis
      proof (cases e)
        case (Full x)
        with Some Cons.prems(1) have r: "complete_loop qs sigma rest d h = Inr (d', h')" by simp
        from Cons.IH [OF r Cons.prems(2-6)] Some Full same show ?thesis by simp
      next
        case (Shorthand x dd)
        with Some Cons.prems(5) False have xp: "x \<noteq> p" and xm: "x \<noteq> m" by auto
        from Some Shorthand Cons.prems(1) obtain h1 where
          c: "complete_state_transitions qs sigma h x dd = Inr h1" and
          r: "complete_loop qs sigma rest (js_put k (Full x) d) h1 = Inr (d', h')"
          by (auto split: sum.splits)
        note h1 = complete_state_transitions_Inr(2) [OF c]
        from Cons.prems(6) xp xm have "h2 x = h x" by simp
        with c have c2: "complete_state_transitions qs sigma h2 x dd = Inr (h2(x := filled sigma dd (h x)))"
          by (rule complete_state_transitions_heap)
        let ?d1 = "js_put k (Full x) d" and ?d21 = "js_put k (Full x) d2"
        let ?h21 = "h2(x := filled sigma dd (h x))"
        have a0: "map_of ?d21 q = Some (Full m)"
          using Cons.prems(2) False by (simp add: map_of_js_put)
        have a: "\<exists>e. map_of ?d1 q = Some e \<and> entry_addr e = Some p"
          using Cons.prems(3) False by (simp add: map_of_js_put)
        have b: "\<forall>k'. k' \<noteq> q \<longrightarrow> map_of ?d21 k' = map_of ?d1 k'"
          using Cons.prems(4) by (simp add: map_of_js_put)
        have cc: "\<forall>k' e. k' \<noteq> q \<longrightarrow> map_of ?d1 k' = Some e \<longrightarrow>
            entry_addr e \<noteq> Some p \<and> entry_addr e \<noteq> Some m"
          using Cons.prems(5) xp xm by (auto simp: map_of_js_put split: if_splits)
        have dd: "\<forall>y. y \<noteq> p \<longrightarrow> y \<noteq> m \<longrightarrow> ?h21 y = h1 y"
          using Cons.prems(6) h1 by simp
        from Cons.IH [OF r a0 a b cc dd] obtain d2' h2' where
          "complete_loop qs sigma rest ?d21 ?h21 = Inr (d2', h2')"
          "map_of d2' q = Some (Full m)" "\<forall>k. k \<noteq> q \<longrightarrow> map_of d2' k = map_of d' k"
          "\<forall>x. x \<noteq> p \<longrightarrow> x \<noteq> m \<longrightarrow> h2' x = h' x" "h2' m = ?h21 m"
          by blast
        with Some Shorthand same c2 xm show ?thesis by simp
      next
        case NotObject
        with Some Cons.prems(1) show ?thesis by simp
      qed
    qed
  qed
qed

lemma sole_owner_map_of:
  "sole_owner d q p \<Longrightarrow> k \<noteq> q \<Longrightarrow> map_of d k = Some e \<Longrightarrow> entry_addr e \<noteq> Some p"
  by (auto simp: sole_owner_def list_all_iff dest!: map_of_SomeD)

lemma unused_map_of:
  "unused d m \<Longrightarrow> map_of d k = Some e \<Longrightarrow> entry_addr e \<noteq> Some m"
  by (auto simp: unused_def list_all_iff dest!: map_of_SomeD)

subsection \<open>The sink nodes\<close>

text \<open>
  The final check of \<open>DFSM.ts\<close> records exactly the states that every symbol of the
  alphabet sends back to themselves in the completed table.
\<close>

lemma sink_nodes_final_check:
  assumes "constructor rt h qs sigma d q_init fs lbl = Inr (A, h')"
  shows "(s \<in> set (sink_nodes A) \<longleftrightarrow>
            s \<in> set (Q A) \<and> (\<forall>a\<in>set (\<Sigma> A). \<delta>_at rt h' (\<delta> A) s a = Some s)) \<and>
         (\<Sigma> A = [] \<longrightarrow> set (sink_nodes A) = set (Q A)) \<and>
         \<Sigma> A = dedup sigma"
proof -
  from constructor_well_formed [OF assms]
  have sn: "sink_nodes A = filter (is_sink rt h' (\<Sigma> A) (\<delta> A)) (Q A)" by (simp add: well_formed_def)
  from assms have sg: "\<Sigma> A = dedup sigma" by (rule constructor_Inr) simp
  from sn have "s \<in> set (sink_nodes A) \<longleftrightarrow>
      s \<in> set (Q A) \<and> (\<forall>a\<in>set (\<Sigma> A). \<delta>_at rt h' (\<delta> A) s a = Some s)"
    by (simp add: is_sink_def)
  moreover from sn have "\<Sigma> A = [] \<longrightarrow> set (sink_nodes A) = set (Q A)"
    by (simp add: is_sink_def)
  ultimately show ?thesis using sg by blast
qed

text \<open>
  In the single-pass revision a state wrongly recorded as a sink makes \<open>read\<close> stop
  there: on the first table of the example \<open>read\<close> returns \<open>a\<close> on the input \<open>0\<close>, where
  the table leads to \<open>b\<close>.
\<close>

lemma single_pass_read:
  "read no_properties
     (heap_after (constructor_single_pass no_properties early_sink_maps [''a'', ''b''] [''0''] early_sink_\<delta> ''a'' [] []))
     \<lparr>Q = [''a'', ''b''], \<Sigma> = [''0''], \<delta> = [(''a'', Full 0), (''b'', Full 1)], q0 = ''a'',
            F = [], sink_nodes = [''a'', ''b''], label = []\<rparr> ''0'' = Inr ''a''"
  by code_simp

section \<open>The claims\<close>

text \<open>
  Claim C1. The claim holds for the constructor of \<open>DFSM.ts\<close> (lemma
  \<open>sink_nodes_final_check\<close>) and fails for the single-pass \<open>#complete_\<delta>\<close> that it also
  cites. With the states \<open>a\<close>, \<open>b\<close> and the alphabet \<open>0\<close>, on
  \<open>{a: [{}, "b"], b: {0: "b"}}\<close> the single pass records \<open>a\<close> as a sink although the
  completed table leads from \<open>a\<close> to \<open>b\<close>; on \<open>{a: [{0: "a"}, "b"], b: {0: "b"}}\<close> it does not
  record \<open>a\<close>, which the only symbol sends back to itself. The constructor of \<open>DFSM.ts\<close>
  gives the sinks \<open>b\<close> and \<open>a, b\<close> on these inputs.
\<close>

theorem single_pass_sinks_wrong:
  "outcome (constructor_single_pass no_properties early_sink_maps [''a'', ''b''] [''0''] early_sink_\<delta> ''a'' [] [])
     = Inr \<lparr>Q = [''a'', ''b''], \<Sigma> = [''0''], \<delta> = [(''a'', Full 0), (''b'', Full 1)], q0 = ''a'',
            F = [], sink_nodes = [''a'', ''b''], label = []\<rparr> \<and>
   \<delta>_at no_properties
     (heap_after (constructor_single_pass no_properties early_sink_maps [''a'', ''b''] [''0''] early_sink_\<delta> ''a'' [] []))
     [(''a'', Full 0), (''b'', Full 1)] ''a'' ''0'' = Some ''b'' \<and>
   outcome (constructor_single_pass no_properties missed_sink_maps [''a'', ''b''] [''0''] early_sink_\<delta> ''a'' [] [])
     = Inr \<lparr>Q = [''a'', ''b''], \<Sigma> = [''0''], \<delta> = [(''a'', Full 0), (''b'', Full 1)], q0 = ''a'',
            F = [], sink_nodes = [''b''], label = []\<rparr> \<and>
   \<delta>_at no_properties
     (heap_after (constructor_single_pass no_properties missed_sink_maps [''a'', ''b''] [''0''] early_sink_\<delta> ''a'' [] []))
     [(''a'', Full 0), (''b'', Full 1)] ''a'' ''0'' = Some ''a'' \<and>
   outcome (constructor no_properties early_sink_maps [''a'', ''b''] [''0''] early_sink_\<delta> ''a'' [] [])
     = Inr \<lparr>Q = [''a'', ''b''], \<Sigma> = [''0''], \<delta> = [(''a'', Full 0), (''b'', Full 1)], q0 = ''a'',
            F = [], sink_nodes = [''b''], label = []\<rparr> \<and>
   outcome (constructor no_properties missed_sink_maps [''a'', ''b''] [''0''] early_sink_\<delta> ''a'' [] [])
     = Inr \<lparr>Q = [''a'', ''b''], \<Sigma> = [''0''], \<delta> = [(''a'', Full 0), (''b'', Full 1)], q0 = ''a'',
            F = [], sink_nodes = [''a'', ''b''], label = []\<rparr>"
  by code_simp

text \<open>
  Claim C2. For an automaton the constructor returns, the completed table gives for every
  state of \<open>Q\<close> and every symbol of the alphabet a state of \<open>Q\<close>; hence \<open>read\<close> returns a
  state of \<open>Q\<close> on every input whose characters all belong to the alphabet.
\<close>

theorem delta_total_read_in_Q:
  assumes "constructor rt h qs sigma d q_init fs lbl = Inr (A, h')"
  shows "(\<forall>s\<in>set (Q A). \<forall>a\<in>set (\<Sigma> A). \<exists>n. \<delta>_at rt h' (\<delta> A) s a = Some n \<and> n \<in> set (Q A)) \<and>
         ((\<forall>c\<in>set input. [c] \<in> set (\<Sigma> A)) \<longrightarrow>
            (\<exists>s. read rt h' A input = Inr s \<and> s \<in> set (Q A)))"
proof -
  have w: "well_formed rt h' A" using assms by (rule constructor_well_formed)
  then have tot: "\<forall>s\<in>set (Q A). \<forall>a\<in>set (\<Sigma> A). \<exists>n. \<delta>_at rt h' (\<delta> A) s a = Some n \<and> n \<in> set (Q A)"
    by (simp add: well_formed_def)
  have "\<exists>s. read rt h' A input = Inr s \<and> s \<in> set (Q A)" if "\<forall>c\<in>set input. [c] \<in> set (\<Sigma> A)"
    using read_plain_fold [OF w that] by blast
  with tot show ?thesis by blast
qed

text \<open>The theorem at \<open>A001\<close> and the input \<open>0101\<close>.\<close>

theorem delta_total_read_in_Q_witness:
  "constructor no_properties A001_maps [''q0'', ''q1'', ''e''] [''0'', ''1''] A001_\<delta> ''q0''
     [''q0'', ''q1''] ''0+(01)*(0+E)'' = Inr (A001, A001_maps) \<and>
   \<delta>_at no_properties A001_maps (\<delta> A001) ''q1'' ''1'' = Some ''q0'' \<and> ''q0'' \<in> set (Q A001) \<and>
   read no_properties A001_maps A001 ''0101'' = Inr ''q0''"
proof -
  have ok: "\<forall>c\<in>set ''0101''. [c] \<in> set (\<Sigma> A001)" by (simp add: A001_def)
  from delta_total_read_in_Q [OF A001_constructed, of no_properties "''0101''"] ok
  obtain s where s: "read no_properties A001_maps A001 ''0101'' = Inr s" "s \<in> set (Q A001)" by blast
  have "read no_properties A001_maps A001 ''0101'' = Inr ''q0''" by code_simp
  moreover have "\<delta>_at no_properties A001_maps (\<delta> A001) ''q1'' ''1'' = Some ''q0''" by code_simp
  ultimately show ?thesis using s A001_constructed by auto
qed

text \<open>
  Claim C3, as amended. Let the constructor succeed on a table whose entry for \<open>q\<close> is the
  short-hand pair \<open>(P, dflt)\<close>, the map \<open>P\<close> (at address \<open>p\<close>) being held by no other entry
  of the table. Then the completed table sends \<open>q\<close> and each symbol \<open>a\<close> of the alphabet
  to \<open>P\<close>'s target for \<open>a\<close> where \<open>P\<close> has one and to \<open>dflt\<close> otherwise; and with any full
  map \<open>M\<close> that has these values on the alphabet, a new object (at an address \<open>m\<close> that no
  entry holds) in the place of the pair, the constructor succeeds as well, with the same
  transition function on the alphabet and every other field of the automaton the same.
\<close>

theorem shorthand_full_equivalence:
  assumes "constructor rt h qs sigma d q_init fs lbl = Inr (A, h')"
    and "map_of d q = Some (Shorthand p dflt)"
    and "sole_owner d q p"
  shows "(\<forall>a\<in>set (\<Sigma> A). \<delta>_at rt h' (\<delta> A) q a =
            Some (case map_of (h p) a of Some s \<Rightarrow> s | None \<Rightarrow> dflt)) \<and>
         (\<forall>M m. unused d m \<and>
            (\<forall>a\<in>set (\<Sigma> A). map_of M a = Some (case map_of (h p) a of Some s \<Rightarrow> s | None \<Rightarrow> dflt)) \<longrightarrow>
            (\<exists>A' g'. constructor rt (h(m := M)) qs sigma (js_put q (Full m) d) q_init fs lbl
                        = Inr (A', g') \<and>
                     (\<forall>s. \<forall>a\<in>set (\<Sigma> A). \<delta>_at rt g' (\<delta> A') s a = \<delta>_at rt h' (\<delta> A) s a) \<and>
                     A'\<lparr>\<delta> := \<delta> A\<rparr> = A))"
proof -
  let ?Q = "dedup qs" and ?S = "dedup sigma"
  let ?v = "\<lambda>a. case map_of (h p) a of Some s \<Rightarrow> s | None \<Rightarrow> dflt"
  from assms(1) obtain d' sinks where d': "complete_\<delta> ?Q ?S d h = Inr (d', h')"
    and q: "q_init \<in> set qs" and fq: "set fs \<subseteq> set qs"
    and f: "\<delta>_final_check rt h' ?Q ?S d' = Inr sinks"
    and A: "A = \<lparr>Q = ?Q, \<Sigma> = ?S, \<delta> = d', q0 = q_init, F = dedup fs,
          sink_nodes = sinks, label = lbl\<rparr>"
    by (rule constructor_Inr)
  note c = complete_delta_Inr [OF d']
  from assms(2) have qk: "q \<in> fst ` set d" using map_of_eq_None_iff [of d q] by auto
  with c(1) have qQ: "q \<in> set ?Q" by blast
  from c(4) assms(2) have dq: "map_of d' q = Some (Full p)" by force
  then have tq: "table_get d' q = Some (Entry (Full p))" by (simp add: table_get_def)
  have others: "\<forall>k x dd. k \<noteq> q \<longrightarrow> map_of d k = Some (Shorthand x dd) \<longrightarrow> x \<noteq> p"
    using sole_owner_map_of [OF assms(3)] by fastforce
  from qk have "q \<in> set (map fst d)" by simp
  from complete_loop_filled [OF c(2) this assms(2) others]
  have hp: "h' p = filled ?S dflt (h p)" .
  from f have "check_states rt h' ?Q ?S d' [] ?Q = Inr sinks" by (simp add: \<delta>_final_check_def)
  from check_states_Inr [OF this] qQ
  have tot: "\<forall>a\<in>set ?S. \<exists>n. \<delta>_at rt h' d' q a = Some n \<and> n \<in> set ?Q" by blast
  have at: "map_of (h' p) a = Some (?v a)" if a: "a \<in> set ?S" for a
  proof -
    from tot a obtain n where "\<delta>_at rt h' d' q a = Some n" by blast
    with tq have "transitions_get (h' p) a = Str n"
      by (simp add: \<delta>_at_def split: jsval.splits)
    then have "map_of (h' p) a = Some n"
      by (auto simp: transitions_get_def split: option.splits if_splits)
    then show ?thesis unfolding hp map_of_filled by (auto split: option.splits if_splits)
  qed
  have 1: "\<forall>a\<in>set (\<Sigma> A). \<delta>_at rt h' (\<delta> A) q a = Some (?v a)"
    using at tq A by (simp add: \<delta>_at_def transitions_get_def)
  have 2: "\<exists>A' g'. constructor rt (h(m := M)) qs sigma (js_put q (Full m) d) q_init fs lbl
                        = Inr (A', g') \<and>
                   (\<forall>s. \<forall>a\<in>set (\<Sigma> A). \<delta>_at rt g' (\<delta> A') s a = \<delta>_at rt h' (\<delta> A) s a) \<and>
                   A'\<lparr>\<delta> := \<delta> A\<rparr> = A"
    if um: "unused d m" and M: "\<forall>a\<in>set (\<Sigma> A). map_of M a = Some (?v a)" for M m
  proof -
    let ?d2 = "js_put q (Full m) d" and ?h2 = "h(m := M)"
    from unused_map_of [OF um assms(2)] have pm: "p \<noteq> m" by simp
    have keys: "map fst ?d2 = map fst d" using assms(2) by (rule js_put_keys_present)
    have a0: "map_of ?d2 q = Some (Full m)" by (simp add: map_of_js_put)
    have a1: "\<exists>e. map_of d q = Some e \<and> entry_addr e = Some p" using assms(2) by simp
    have a2: "\<forall>k. k \<noteq> q \<longrightarrow> map_of ?d2 k = map_of d k" by (simp add: map_of_js_put)
    have a3: "\<forall>k e. k \<noteq> q \<longrightarrow> map_of d k = Some e \<longrightarrow>
        entry_addr e \<noteq> Some p \<and> entry_addr e \<noteq> Some m"
      using sole_owner_map_of [OF assms(3)] unused_map_of [OF um] by blast
    have a4: "\<forall>x. x \<noteq> p \<longrightarrow> x \<noteq> m \<longrightarrow> ?h2 x = h x" by simp
    from complete_loop_twin [OF c(2) a0 a1 a2 a3 a4] obtain d2' g' where
      l2: "complete_loop ?Q ?S (map fst d) ?d2 ?h2 = Inr (d2', g')" and
      q2: "map_of d2' q = Some (Full m)" and
      o2: "\<forall>k. k \<noteq> q \<longrightarrow> map_of d2' k = map_of d' k" and
      g2: "\<forall>x. x \<noteq> p \<longrightarrow> x \<noteq> m \<longrightarrow> g' x = h' x" and
      gm: "g' m = ?h2 m"
      by blast
    have "\<forall>x\<in>set (map fst d). validate_state ?Q x = Inr ()"
      using c(1) by (auto simp: validate_state_iff)
    then have "map_validate (validate_state ?Q) (map fst d) = Inr (map fst d)"
      by (rule map_validate_ok)
    with l2 have c2: "complete_\<delta> ?Q ?S ?d2 ?h2 = Inr (d2', g')"
      by (simp add: complete_\<delta>_def keys)
    have rel: "rel_option (\<lambda>t t'. \<forall>a\<in>set ?S. tval_get rt g' t a = tval_get rt h' t' a)
        (table_get d2' s) (table_get d' s)" for s
    proof (cases "s = q")
      case True
      have "tval_get rt g' (Entry (Full m)) a = tval_get rt h' (Entry (Full p)) a"
        if "a \<in> set ?S" for a
        using at [OF that] M A that gm by (simp add: transitions_get_def)
      with True q2 tq show ?thesis by (simp add: table_get_def)
    next
      case False
      with o2 have same: "map_of d2' s = map_of d' s" by simp
      show ?thesis
      proof (cases "map_of d' s")
        case None
        with same show ?thesis by (simp add: table_get_def option.rel_refl)
      next
        case (Some e')
        from complete_delta_Full [OF d' Some] obtain x where x: "e' = Full x" ..
        from in_place_map_of [OF c(3) Some] obtain e where
          e: "map_of d s = Some e" "e' = e \<or> e' = as_full e" by blast
        from a3 False e(1) have "entry_addr e \<noteq> Some p \<and> entry_addr e \<noteq> Some m" by blast
        moreover from e(2) x have "entry_addr e = Some x" by (cases e) auto
        ultimately have "x \<noteq> p" "x \<noteq> m" by simp_all
        with g2 have "g' x = h' x" by simp
        with Some same x show ?thesis by (simp add: table_get_def)
      qed
    qed
    have "check_states rt g' ?Q ?S d2' [] ?Q = check_states rt h' ?Q ?S d' [] ?Q"
      by (rule check_states_cong) (simp add: rel)
    with f have f2: "\<delta>_final_check rt g' ?Q ?S d2' = Inr sinks" by (simp add: \<delta>_final_check_def)
    from constructor_ok [OF c2 q fq f2]
    have r2: "constructor rt ?h2 qs sigma ?d2 q_init fs lbl =
        Inr (\<lparr>Q = ?Q, \<Sigma> = ?S, \<delta> = d2', q0 = q_init, F = dedup fs, sink_nodes = sinks,
              label = lbl\<rparr>, g')" .
    have at2: "\<delta>_at rt g' d2' s a = \<delta>_at rt h' d' s a" if "a \<in> set ?S" for s a
      using rel [of s] that
      by (cases "table_get d2' s"; cases "table_get d' s") (simp_all add: \<delta>_at_def)
    from r2 A at2 show ?thesis by simp
  qed
  from 1 2 show ?thesis by blast
qed

text \<open>The theorem at the short-hand entry of \<open>q1\<close> in \<open>A001_short\<close>.\<close>

theorem shorthand_full_equivalence_witness:
  "outcome (constructor no_properties A001_short_maps [''q0'', ''q1'', ''e''] [''0'', ''1''] A001_short
     ''q0'' [''q0'', ''q1''] ''0+(01)*(0+E)'') = Inr A001 \<and>
   map_of A001_short ''q1'' = Some (Shorthand 1 ''q0'') \<and> sole_owner A001_short ''q1'' 1 \<and>
   A001_short_maps 1 = [(''0'', ''e'')] \<and> unused A001_short 3 \<and>
   \<delta>_at no_properties
     (heap_after (constructor no_properties A001_short_maps [''q0'', ''q1'', ''e''] [''0'', ''1'']
        A001_short ''q0'' [''q0'', ''q1''] ''0+(01)*(0+E)''))
     A001_\<delta> ''q1'' ''1'' = Some ''q0'' \<and>
   (\<exists>A' g'. constructor no_properties (A001_short_maps(3 := [(''0'', ''e''), (''1'', ''q0'')]))
              [''q0'', ''q1'', ''e''] [''0'', ''1''] (js_put ''q1'' (Full 3) A001_short)
              ''q0'' [''q0'', ''q1''] ''0+(01)*(0+E)'' = Inr (A', g') \<and>
            \<delta>_at no_properties g' (\<delta> A') ''q1'' ''1'' = Some ''q0'' \<and>
            sink_nodes A' = [''e''])"
proof -
  let ?r = "constructor no_properties A001_short_maps [''q0'', ''q1'', ''e''] [''0'', ''1''] A001_short
     ''q0'' [''q0'', ''q1''] ''0+(01)*(0+E)''"
  let ?M = "[(''0'', ''e''), (''1'', ''q0'')]"
  have o: "outcome ?r = Inr A001" by (rule A001_short_constructed)
  then have c: "?r = Inr (A001, heap_after ?r)" by (rule outcome_Inr)
  have m: "map_of A001_short ''q1'' = Some (Shorthand 1 ''q0'')" by (simp add: A001_short_def)
  have so: "sole_owner A001_short ''q1'' 1" by code_simp
  have un: "unused A001_short 3" by code_simp
  have hp: "A001_short_maps 1 = [(''0'', ''e'')]" by code_simp
  note th = shorthand_full_equivalence [OF c m so]
  have sg: "\<Sigma> A001 = [''0'', ''1'']" and dA: "\<delta> A001 = A001_\<delta>" by (simp_all add: A001_def)
  have v: "(case map_of (A001_short_maps 1) ''0'' of Some s \<Rightarrow> s | None \<Rightarrow> ''q0'') = ''e''"
    "(case map_of (A001_short_maps 1) ''1'' of Some s \<Rightarrow> s | None \<Rightarrow> ''q0'') = ''q0''"
    unfolding hp by simp_all
  from th have "\<forall>a\<in>set (\<Sigma> A001). \<delta>_at no_properties (heap_after ?r) (\<delta> A001) ''q1'' a =
      Some (case map_of (A001_short_maps 1) a of Some s \<Rightarrow> s | None \<Rightarrow> ''q0'')"
    by blast
  then have "\<delta>_at no_properties (heap_after ?r) A001_\<delta> ''q1'' ''1'' =
      Some (case map_of (A001_short_maps 1) ''1'' of Some s \<Rightarrow> s | None \<Rightarrow> ''q0'')"
    unfolding sg dA by simp
  then have 1: "\<delta>_at no_properties (heap_after ?r) A001_\<delta> ''q1'' ''1'' = Some ''q0''"
    unfolding v .
  have "\<forall>a\<in>set (\<Sigma> A001). map_of ?M a =
      Some (case map_of (A001_short_maps 1) a of Some s \<Rightarrow> s | None \<Rightarrow> ''q0'')"
    unfolding sg hp by simp
  with th un obtain A' g' where A': "constructor no_properties (A001_short_maps(3 := ?M))
              [''q0'', ''q1'', ''e''] [''0'', ''1''] (js_put ''q1'' (Full 3) A001_short)
              ''q0'' [''q0'', ''q1''] ''0+(01)*(0+E)'' = Inr (A', g')"
    "\<forall>s. \<forall>a\<in>set (\<Sigma> A001). \<delta>_at no_properties g' (\<delta> A') s a
        = \<delta>_at no_properties (heap_after ?r) (\<delta> A001) s a"
    "A'\<lparr>\<delta> := \<delta> A001\<rparr> = A001"
    by blast
  from A'(2) sg dA 1 have 2: "\<delta>_at no_properties g' (\<delta> A') ''q1'' ''1'' = Some ''q0''"
    by simp
  from A'(3) have "sink_nodes (A'\<lparr>\<delta> := \<delta> A001\<rparr>) = sink_nodes A001" by simp
  then have 3: "sink_nodes A' = [''e'']" by (simp add: A001_def)
  from o m so hp un 1 A'(1) 2 3 show ?thesis by blast
qed

text \<open>
  Claim C3 as stated fails where two pairs hold the same map object: in
  \<open>{a: [P, "a"], b: [P, "b"]}\<close> with \<open>P = {0: "a"}\<close> and the alphabet \<open>0, 1\<close>, the pair
  of \<open>a\<close> fills \<open>P\<close> first, and the completed entry of \<open>b\<close> sends \<open>1\<close> to \<open>a\<close>, not to the
  default \<open>b\<close> of its pair.
\<close>

theorem shared_map_completed_once:
  "map_of shared_\<delta> ''b'' = Some (Shorthand 0 ''b'') \<and> map_of (shared_maps 0) ''1'' = None \<and>
   outcome (constructor no_properties shared_maps [''a'', ''b''] [''0'', ''1''] shared_\<delta> ''a'' [] [])
     = Inr \<lparr>Q = [''a'', ''b''], \<Sigma> = [''0'', ''1''], \<delta> = [(''a'', Full 0), (''b'', Full 0)],
            q0 = ''a'', F = [], sink_nodes = [''a''], label = []\<rparr> \<and>
   \<delta>_at no_properties
     (heap_after (constructor no_properties shared_maps [''a'', ''b''] [''0'', ''1''] shared_\<delta> ''a'' [] []))
     [(''a'', Full 0), (''b'', Full 0)] ''b'' ''1'' = Some ''a''"
  by code_simp

text \<open>
  Claim C4. \<open>test\<close> is a total function to the booleans (there is no error in its type):
  for an automaton the constructor returns and any input, it is false whenever \<open>read\<close>
  fails, in particular whenever a character lies outside the alphabet, and when \<open>read\<close>
  succeeds it is true exactly when the state read is an accept state.
\<close>

theorem test_total:
  assumes "constructor rt h qs sigma d q_init fs lbl = Inr (A, h')"
  shows "(\<forall>e. read rt h' A input = Inl e \<longrightarrow> test rt h' A input = False) \<and>
         (\<forall>s. read rt h' A input = Inr s \<longrightarrow> (test rt h' A input \<longleftrightarrow> s \<in> set (F A))) \<and>
         ((\<exists>c\<in>set input. [c] \<notin> set (\<Sigma> A)) \<longrightarrow> test rt h' A input = False) \<and>
         ((\<forall>c\<in>set input. [c] \<in> set (\<Sigma> A)) \<longrightarrow>
            (\<exists>s. read rt h' A input = Inr s \<and> (test rt h' A input \<longleftrightarrow> s \<in> set (F A))))"
proof -
  have 1: "\<forall>e. read rt h' A input = Inl e \<longrightarrow> test rt h' A input = False"
    by (simp add: test_def)
  have 2: "\<forall>s. read rt h' A input = Inr s \<longrightarrow> (test rt h' A input \<longleftrightarrow> s \<in> set (F A))"
    by (simp add: test_def)
  have 3: "test rt h' A input = False" if "\<exists>c\<in>set input. [c] \<notin> set (\<Sigma> A)"
    using read_bad_symbol [OF that, of rt h'] by (auto simp: test_def)
  have 4: "\<exists>s. read rt h' A input = Inr s \<and> (test rt h' A input \<longleftrightarrow> s \<in> set (F A))"
    if "\<forall>c\<in>set input. [c] \<in> set (\<Sigma> A)"
  proof -
    from read_plain_fold [OF constructor_well_formed [OF assms] that]
    obtain s where "read rt h' A input = Inr s" by blast
    then show ?thesis by (simp add: test_def)
  qed
  from 1 2 3 4 show ?thesis by blast
qed

text \<open>The theorem at \<open>A001\<close>: an input with a foreign character, an accepted and a rejected one.\<close>

theorem test_total_witness:
  "constructor no_properties A001_maps [''q0'', ''q1'', ''e''] [''0'', ''1''] A001_\<delta> ''q0''
     [''q0'', ''q1''] ''0+(01)*(0+E)'' = Inr (A001, A001_maps) \<and>
   read no_properties A001_maps A001 ''01x'' = Inl (SymbolNotInSigma ''x'') \<and>
   test no_properties A001_maps A001 ''01x'' = False \<and>
   read no_properties A001_maps A001 ''010'' = Inr ''q1'' \<and>
   test no_properties A001_maps A001 ''010'' = True \<and>
   read no_properties A001_maps A001 ''00'' = Inr ''e'' \<and>
   test no_properties A001_maps A001 ''00'' = False"
proof -
  have r: "read no_properties A001_maps A001 ''01x'' = Inl (SymbolNotInSigma ''x'')"
    "read no_properties A001_maps A001 ''010'' = Inr ''q1''"
    "read no_properties A001_maps A001 ''00'' = Inr ''e''"
    by code_simp+
  have f: "F A001 = [''q0'', ''q1'']" by (simp add: A001_def)
  from test_total [OF A001_constructed, of no_properties "''01x''"] r(1)
  have "test no_properties A001_maps A001 ''01x'' = False" by blast
  moreover from test_total [OF A001_constructed, of no_properties "''010''"] r(2) f
  have "test no_properties A001_maps A001 ''010'' = True" by simp
  moreover from test_total [OF A001_constructed, of no_properties "''00''"] r(3) f
  have "test no_properties A001_maps A001 ''00'' = False" by simp
  ultimately show ?thesis using r A001_constructed by simp
qed

text \<open>
  Claim C5. For an automaton the constructor returns (with or without sink states) and
  an input over the alphabet, \<open>read\<close> returns the state that the plain fold of the
  transition function over the whole input reaches from \<open>q0\<close>: leaving the loop at a sink
  never changes the result.
\<close>

theorem read_early_exit:
  assumes "constructor rt h qs sigma d q_init fs lbl = Inr (A, h')"
    and "\<forall>c\<in>set input. [c] \<in> set (\<Sigma> A)"
  shows "\<exists>s. read rt h' A input = Inr s \<and>
             plain_fold rt h' (\<delta> A) (q0 A) (map (\<lambda>c. [c]) input) = Some s"
  using read_plain_fold [OF constructor_well_formed [OF assms(1)] assms(2)] by blast

text \<open>The theorem at \<open>A001\<close>, whose scan of \<open>0011\<close> stops in the sink after two characters.\<close>

theorem read_early_exit_witness:
  "constructor no_properties A001_maps [''q0'', ''q1'', ''e''] [''0'', ''1''] A001_\<delta> ''q0''
     [''q0'', ''q1''] ''0+(01)*(0+E)'' = Inr (A001, A001_maps) \<and>
   sink_nodes A001 = [''e''] \<and>
   read no_properties A001_maps A001 ''0011'' = Inr ''e'' \<and>
   plain_fold no_properties A001_maps (\<delta> A001) (q0 A001) [''0'', ''0'', ''1'', ''1''] = Some ''e''"
proof -
  have ok: "\<forall>c\<in>set ''0011''. [c] \<in> set (\<Sigma> A001)" by (simp add: A001_def)
  from read_early_exit [OF A001_constructed ok, of no_properties]
  obtain s where s: "read no_properties A001_maps A001 ''0011'' = Inr s"
    "plain_fold no_properties A001_maps (\<delta> A001) (q0 A001) (map (\<lambda>c. [c]) ''0011'') = Some s"
    by blast
  have r: "read no_properties A001_maps A001 ''0011'' = Inr ''e''" by code_simp
  with s have "plain_fold no_properties A001_maps (\<delta> A001) (q0 A001) (map (\<lambda>c. [c]) ''0011'') = Some ''e''"
    by simp
  then have "plain_fold no_properties A001_maps (\<delta> A001) (q0 A001) [''0'', ''0'', ''1'', ''1''] = Some ''e''"
    by simp
  moreover have "sink_nodes A001 = [''e'']" by (simp add: A001_def)
  ultimately show ?thesis using A001_constructed r by simp
qed

text \<open>
  Claim C6, as amended. On an input with a character outside the alphabet \<open>read\<close> fails,
  returning no state, with the error that names the first such character. The error
  carries the character only, not its position.
\<close>

theorem read_unknown_symbol:
  assumes "\<exists>c\<in>set input. [c] \<notin> set (\<Sigma> A)"
  shows "\<exists>c. find (\<lambda>c. [c] \<notin> set (\<Sigma> A)) input = Some c \<and>
             read rt h A input = Inl (SymbolNotInSigma [c])"
  using assms by (rule read_bad_symbol)

text \<open>The theorem at \<open>A001\<close> and the input \<open>0x1y\<close>.\<close>

theorem read_unknown_symbol_witness:
  "find (\<lambda>c. [c] \<notin> set (\<Sigma> A001)) ''0x1y'' = Some CHR ''x'' \<and>
   read no_properties A001_maps A001 ''0x1y'' = Inl (SymbolNotInSigma ''x'')"
proof -
  have "\<exists>c\<in>set ''0x1y''. [c] \<notin> set (\<Sigma> A001)" by (simp add: A001_def)
  from read_unknown_symbol [OF this, of no_properties A001_maps]
  obtain c where c: "find (\<lambda>c. [c] \<notin> set (\<Sigma> A001)) ''0x1y'' = Some c"
    "read no_properties A001_maps A001 ''0x1y'' = Inl (SymbolNotInSigma [c])" by blast
  have "find (\<lambda>c. [c] \<notin> set (\<Sigma> A001)) ''0x1y'' = Some CHR ''x''" by (simp add: A001_def)
  with c show ?thesis by simp
qed

text \<open>
  Claim C6 as stated fails: the inputs \<open>x0\<close> and \<open>0x\<close> have their first foreign character
  at positions 0 and 1, and \<open>read\<close> fails with the same error on both.
\<close>

theorem read_error_without_position:
  "constructor no_properties A001_maps [''q0'', ''q1'', ''e''] [''0'', ''1''] A001_\<delta> ''q0''
     [''q0'', ''q1''] ''0+(01)*(0+E)'' = Inr (A001, A001_maps) \<and>
   read no_properties A001_maps A001 ''x0'' = Inl (SymbolNotInSigma ''x'') \<and>
   read no_properties A001_maps A001 ''0x'' = Inl (SymbolNotInSigma ''x'') \<and>
   length (takeWhile (\<lambda>c. [c] \<in> set (\<Sigma> A001)) ''x0'') = 0 \<and>
   length (takeWhile (\<lambda>c. [c] \<in> set (\<Sigma> A001)) ''0x'') = 1"
  using A001_constructed [of no_properties]
  by (simp add: A001_def read_def validate_input_def validate_char_def)

text \<open>
  Claim C7, as amended. The constructor returns an automaton or an error, never both
  (its result is a sum). It completes the caller's objects in place. After any call,
  failed or not, the table has its keys in their order and each entry is as supplied or
  is the map of the short-hand pair supplied; and each map of the store is as supplied or
  is that map with the missing symbols of the alphabet sent to the default state of one
  of the pairs that hold it. After a successful call the table is the automaton's \<open>\<delta>\<close>
  and each entry read from it is a map. A table in which no entry is a short-hand pair
  is left as it was, and so are all maps.
\<close>

theorem table_completed_in_place:
  "in_place d (table_after (constructor rt h qs sigma d q_init fs lbl)) \<and>
   (\<forall>x. filled_once (dedup sigma) d h (heap_after (constructor rt h qs sigma d q_init fs lbl)) x) \<and>
   (\<forall>A h'. constructor rt h qs sigma d q_init fs lbl = Inr (A, h') \<longrightarrow>
      table_after (constructor rt h qs sigma d q_init fs lbl) = \<delta> A \<and>
      heap_after (constructor rt h qs sigma d q_init fs lbl) = h' \<and>
      (\<forall>k e. map_of (\<delta> A) k = Some e \<longrightarrow> (\<exists>p. e = Full p))) \<and>
   ((\<forall>x\<in>set d. \<forall>p dflt. snd x \<noteq> Shorthand p dflt) \<longrightarrow>
      table_after (constructor rt h qs sigma d q_init fs lbl) = d \<and>
      heap_after (constructor rt h qs sigma d q_init fs lbl) = h)"
proof -
  let ?r = "constructor rt h qs sigma d q_init fs lbl"
  note ip = complete_delta_in_place [of d "dedup qs" "dedup sigma" h]
  have 1: "in_place d (table_after ?r)"
    using ip by (simp add: table_after_constructor)
  have 2: "\<forall>x. filled_once (dedup sigma) d h (heap_after ?r) x"
    using ip by (simp add: heap_after_constructor)
  have 3: "table_after ?r = \<delta> A \<and> heap_after ?r = h' \<and>
      (\<forall>k e. map_of (\<delta> A) k = Some e \<longrightarrow> (\<exists>p. e = Full p))"
    if A: "?r = Inr (A, h')" for A h'
  proof -
    from A obtain d' where d': "complete_\<delta> (dedup qs) (dedup sigma) d h = Inr (d', h')"
      and dA: "\<delta> A = d'"
      by (rule constructor_Inr) simp
    have "\<exists>p. e = Full p" if "map_of d' k = Some e" for k e
      using complete_delta_Full [OF d' that] .
    with dA A show ?thesis by (simp add: table_after_def heap_after_def)
  qed
  have 4: "table_after ?r = d \<and> heap_after ?r = h"
    if ns: "\<forall>x\<in>set d. \<forall>p dflt. snd x \<noteq> Shorthand p dflt"
  proof -
    have "as_full (snd x) = snd x" if "x \<in> set d" for x
      using that ns by (cases "snd x") auto
    with in_place_no_shorthand [OF 1] have "table_after ?r = d" by blast
    moreover have "heap_after ?r x = h x" for x
      using filled_once_no_shorthand [OF ns] 2 by blast
    ultimately show ?thesis by (simp add: fun_eq_iff)
  qed
  from 1 2 3 4 show ?thesis by blast
qed

text \<open>The theorem at the short-hand table \<open>A001_short\<close> and at the full table \<open>A001_\<delta>\<close>.\<close>

theorem table_completed_in_place_witness:
  "outcome (constructor no_properties A001_short_maps [''q0'', ''q1'', ''e''] [''0'', ''1''] A001_short
     ''q0'' [''q0'', ''q1''] ''0+(01)*(0+E)'') = Inr A001 \<and>
   in_place A001_short A001_\<delta> \<and>
   filled_once [''0'', ''1''] A001_short A001_short_maps A001_maps 1 \<and>
   table_after (constructor no_properties A001_maps [''q0'', ''q1'', ''e''] [''0'', ''1''] A001_\<delta>
     ''q0'' [''q0'', ''q1''] ''0+(01)*(0+E)'') = A001_\<delta> \<and>
   heap_after (constructor no_properties A001_maps [''q0'', ''q1'', ''e''] [''0'', ''1''] A001_\<delta>
     ''q0'' [''q0'', ''q1''] ''0+(01)*(0+E)'') = A001_maps"
proof -
  let ?r = "constructor no_properties A001_short_maps [''q0'', ''q1'', ''e''] [''0'', ''1''] A001_short
     ''q0'' [''q0'', ''q1''] ''0+(01)*(0+E)''"
  have c: "outcome ?r = Inr A001" by (rule A001_short_constructed)
  have t: "table_after ?r = A001_\<delta>" by code_simp
  have g: "heap_after ?r 1 = A001_maps 1" by code_simp
  have s: "A001_short_maps 1 = [(''0'', ''e'')]" by code_simp
  have d: "dedup [''0'', ''1''] = [''0'', ''1'']" by code_simp
  note th = table_completed_in_place [of A001_short no_properties A001_short_maps
      "[''q0'', ''q1'', ''e'']" "[''0'', ''1'']" "''q0''" "[''q0'', ''q1'']" "''0+(01)*(0+E)''"]
  from th t have 1: "in_place A001_short A001_\<delta>" by simp
  from th have "filled_once (dedup [''0'', ''1'']) A001_short A001_short_maps (heap_after ?r) 1"
    by blast
  then have 2: "filled_once [''0'', ''1''] A001_short A001_short_maps A001_maps 1"
    unfolding d filled_once_def g .
  have "\<forall>x\<in>set A001_\<delta>. \<forall>p dflt. snd x \<noteq> Shorthand p dflt" by (simp add: A001_\<delta>_def)
  with table_completed_in_place [of A001_\<delta> no_properties A001_maps
      "[''q0'', ''q1'', ''e'']" "[''0'', ''1'']" "''q0''" "[''q0'', ''q1'']" "''0+(01)*(0+E)''"]
  have 3: "table_after (constructor no_properties A001_maps [''q0'', ''q1'', ''e''] [''0'', ''1''] A001_\<delta>
     ''q0'' [''q0'', ''q1''] ''0+(01)*(0+E)'') = A001_\<delta> \<and>
   heap_after (constructor no_properties A001_maps [''q0'', ''q1'', ''e''] [''0'', ''1''] A001_\<delta>
     ''q0'' [''q0'', ''q1''] ''0+(01)*(0+E)'') = A001_maps" by blast
  from c 1 2 3 show ?thesis by simp
qed

text \<open>
  Claim C7 as stated fails: a construction that throws (the initial state \<open>q9\<close> is not in
  \<open>Q\<close>) and one that succeeds both leave the caller's short-hand table completed, its
  pairs replaced by their maps and the maps filled.
\<close>

theorem caller_table_changed:
  "outcome (constructor no_properties A001_short_maps [''q0'', ''q1'', ''e''] [''0'', ''1''] A001_short
     ''q9'' [''q0'', ''q1''] []) = Inl (StateNotInQ ''q9'') \<and>
   table_after (constructor no_properties A001_short_maps [''q0'', ''q1'', ''e''] [''0'', ''1''] A001_short
     ''q9'' [''q0'', ''q1''] []) = A001_\<delta> \<and>
   heap_after (constructor no_properties A001_short_maps [''q0'', ''q1'', ''e''] [''0'', ''1''] A001_short
     ''q9'' [''q0'', ''q1''] []) 0 = [(''0'', ''q1''), (''1'', ''e'')] \<and>
   table_after (constructor no_properties A001_short_maps [''q0'', ''q1'', ''e''] [''0'', ''1''] A001_short
     ''q0'' [''q0'', ''q1''] []) = A001_\<delta> \<and>
   heap_after (constructor no_properties A001_short_maps [''q0'', ''q1'', ''e''] [''0'', ''1''] A001_short
     ''q0'' [''q0'', ''q1''] []) 0 = [(''0'', ''q1''), (''1'', ''e'')] \<and>
   A001_\<delta> \<noteq> A001_short \<and> A001_short_maps 0 = [(''0'', ''q1'')]"
  by code_simp

text \<open>
  Claim C8, as amended. Let some state of \<open>Q\<close> have no entry in the raw table and not be
  named like a member of \<open>Object.prototype\<close> (so that \<open>\<delta>[state]\<close> is \<open>undefined\<close>). Then
  the constructor fails. Whenever the error is \<open>MissingEntry\<close>, it names the first state
  for which the table gives \<open>undefined\<close>, in the order of the deduplicated \<open>Q\<close>. The error
  is \<open>MissingEntry\<close> when the missing entries are the only defect: every key of the table
  is in \<open>Q\<close>, every entry present is valid, the initial and accept states are in \<open>Q\<close>, and
  no state without an entry is named like a member of \<open>Object.prototype\<close>.
\<close>

theorem missing_entry_reported:
  assumes "s0 \<in> set qs" and "undefined_in d s0"
  shows "(\<exists>e t g. constructor rt h qs sigma d q_init fs lbl = Inl (e, t, g)) \<and>
         (\<forall>s t g. constructor rt h qs sigma d q_init fs lbl = Inl (MissingEntry s, t, g) \<longrightarrow>
            find (undefined_in d) (dedup qs) = Some s) \<and>
         (fst ` set d \<subseteq> set qs \<and>
          (\<forall>x\<in>set d. entry_valid (dedup qs) (dedup sigma) h (snd x)) \<and>
          q_init \<in> set qs \<and> set fs \<subseteq> set qs \<and>
          (\<forall>s\<in>set qs. map_of d s = None \<longrightarrow> s \<notin> set Object_prototype_names) \<longrightarrow>
            (\<exists>s t g. find (undefined_in d) (dedup qs) = Some s \<and>
                     constructor rt h qs sigma d q_init fs lbl = Inl (MissingEntry s, t, g)))"
proof -
  let ?Q = "dedup qs" and ?S = "dedup sigma"
  let ?r = "constructor rt h qs sigma d q_init fs lbl"
  have 1: "\<exists>e t g. ?r = Inl (e, t, g)"
  proof (cases ?r)
    case (Inl p)
    then show ?thesis by (cases p) auto
  next
    case (Inr p)
    obtain A h' where "p = (A, h')" by (cases p)
    with Inr have "?r = Inr (A, h')" by simp
    then obtain d' sinks where d': "complete_\<delta> ?Q ?S d h = Inr (d', h')"
      and f: "\<delta>_final_check rt h' ?Q ?S d' = Inr sinks"
      by (rule constructor_Inr)
    from f have "\<forall>s\<in>set ?Q. table_get d' s \<noteq> None"
      unfolding \<delta>_final_check_def by (rule check_states_Inr_entries)
    with assms(1) have "\<not> undefined_in d' s0" by (simp add: set_dedup undefined_in_table_get)
    with in_place_undefined_in [OF complete_delta_Inr(3) [OF d']] assms(2)
    show ?thesis by simp
  qed
  have 2: "find (undefined_in d) ?Q = Some s" if "?r = Inl (MissingEntry s, t, g)" for s t g
  proof -
    from constructor_MissingEntry [OF that] obtain d' h'
      where d': "complete_\<delta> ?Q ?S d h = Inr (d', h')"
      and f: "check_states rt h' ?Q ?S d' [] ?Q = Inl (MissingEntry s)"
      by (auto simp: \<delta>_final_check_def)
    have "(\<lambda>s. table_get d' s = None) = undefined_in d"
      using in_place_undefined_in [OF complete_delta_Inr(3) [OF d']]
      by (simp add: fun_eq_iff undefined_in_table_get)
    with check_states_missing [OF f] show ?thesis by simp
  qed
  have 3: "\<exists>s t g. find (undefined_in d) ?Q = Some s \<and> ?r = Inl (MissingEntry s, t, g)"
    if k: "fst ` set d \<subseteq> set qs" and v: "\<forall>x\<in>set d. entry_valid ?Q ?S h (snd x)"
      and q: "q_init \<in> set qs" and fq: "set fs \<subseteq> set qs"
      and np: "\<forall>s\<in>set qs. map_of d s = None \<longrightarrow> s \<notin> set Object_prototype_names"
  proof -
    from k have "fst ` set d \<subseteq> set ?Q" by (simp add: set_dedup)
    from complete_delta_valid [OF this v] obtain d' h'
      where d': "complete_\<delta> ?Q ?S d h = Inr (d', h')"
      and v': "\<forall>x\<in>set d'. entry_valid ?Q ?S h' (snd x)" by blast
    note c = complete_delta_Inr [OF d']
    from assms obtain s where s: "find (undefined_in d) ?Q = Some s"
      by (cases "find (undefined_in d) ?Q") (auto simp: find_None_iff set_dedup)
    have eq: "(\<lambda>s. table_get d' s = None) = undefined_in d"
      using in_place_undefined_in [OF c(3)] by (simp add: fun_eq_iff undefined_in_table_get)
    have tg: "\<forall>x\<in>set ?Q. \<forall>t. table_get d' x = Some t \<longrightarrow> (\<forall>a\<in>set ?S. target_ok rt h' ?Q t a)"
    proof (intro ballI allI impI)
      fix x t a assume x: "x \<in> set ?Q" and t: "table_get d' x = Some t" and a: "a \<in> set ?S"
      show "target_ok rt h' ?Q t a"
      proof (cases "map_of d' x")
        case None
        then have "map_of d x = None" using in_place_map_of_None [OF c(3)] by simp
        with np x have "x \<notin> set Object_prototype_names" by (simp add: set_dedup)
        with None t show ?thesis by (simp add: table_get_def)
      next
        case (Some e)
        from complete_delta_Full [OF d' Some] obtain p where p: "e = Full p" ..
        from Some have "(x, e) \<in> set d'" by (rule map_of_SomeD)
        with v' have "entry_valid ?Q ?S h' e" by force
        with p a obtain n where "map_of (h' p) a = Some n" "n \<in> set ?Q"
          by (auto simp: entry_valid_def split: option.splits)
        moreover from Some t p have "t = Entry (Full p)" by (simp add: table_get_def)
        ultimately show ?thesis by (simp add: target_ok_def transitions_get_def)
      qed
    qed
    from s eq have "find (\<lambda>s. table_get d' s = None) ?Q = Some s" by simp
    from check_states_first_missing [OF this tg]
    have f: "\<delta>_final_check rt h' ?Q ?S d' = Inl (MissingEntry s)" by (simp add: \<delta>_final_check_def)
    have "validate_state ?Q q_init = Inr ()" using q by (simp add: validate_state_iff set_dedup)
    moreover have "map_validate (validate_state ?Q) (dedup fs) = Inr (dedup fs)"
      using fq by (intro map_validate_ok) (auto simp: validate_state_iff set_dedup)
    ultimately have "?r = Inl (MissingEntry s, d', h')" using d' f by (simp add: constructor_def)
    with s show ?thesis by blast
  qed
  from 1 2 3 show ?thesis by blast
qed

text \<open>
  The theorem at a table that holds the entry of \<open>e\<close> only, \<open>Q\<close> listing \<open>e\<close> first: the
  error names \<open>q0\<close>.
\<close>

theorem missing_entry_reported_witness:
  "''q0'' \<in> set [''e'', ''q0'', ''q1''] \<and> undefined_in [(''e'', Full 2)] ''q0'' \<and>
   find (undefined_in [(''e'', Full 2)]) (dedup [''e'', ''q0'', ''q1'']) = Some ''q0'' \<and>
   outcome (constructor no_properties A001_maps [''e'', ''q0'', ''q1''] [''0'', ''1''] [(''e'', Full 2)]
     ''q0'' [''q0'', ''q1''] []) = Inl (MissingEntry ''q0'')"
proof -
  let ?d = "[(''e'', Full 2)]"
  let ?qs = "[''e'', ''q0'', ''q1'']"
  have 1: "''q0'' \<in> set ?qs" by simp
  have 2: "undefined_in ?d ''q0''" by code_simp
  have k: "fst ` set ?d \<subseteq> set ?qs" by simp
  have "entry_valid (dedup ?qs) (dedup [''0'', ''1'']) A001_maps (Full 2)"
    by code_simp
  then have v: "\<forall>x\<in>set ?d. entry_valid (dedup ?qs) (dedup [''0'', ''1'']) A001_maps (snd x)" by simp
  have q: "''q0'' \<in> set ?qs \<and> set [''q0'', ''q1''] \<subseteq> set ?qs" by simp
  have np: "\<forall>s\<in>set ?qs. map_of ?d s = None \<longrightarrow> s \<notin> set Object_prototype_names"
    by (simp add: Object_prototype_names_def)
  from missing_entry_reported [OF 1 2, of no_properties A001_maps "[''0'', ''1'']" "''q0''"
      "[''q0'', ''q1'']" "[]"] k v q np
  obtain s t g where s: "find (undefined_in ?d) (dedup ?qs) = Some s"
    and c: "constructor no_properties A001_maps ?qs [''0'', ''1''] ?d ''q0'' [''q0'', ''q1''] []
      = Inl (MissingEntry s, t, g)"
    by blast
  have f: "find (undefined_in ?d) (dedup ?qs) = Some ''q0''" by code_simp
  with s c have "outcome (constructor no_properties A001_maps ?qs [''0'', ''1''] ?d ''q0''
      [''q0'', ''q1''] []) = Inl (MissingEntry ''q0'')"
    by (simp add: outcome_def)
  with f 1 2 show ?thesis by simp
qed

text \<open>
  Claim C8 as stated fails: \<open>b\<close> has no entry, but the final check reaches \<open>a\<close> first,
  whose map has no transition on \<open>0\<close>, and the error is \<open>MissingTransition\<close>.
\<close>

theorem missing_entry_preempted:
  "''b'' \<in> set [''a'', ''b''] \<and> undefined_in preempted_\<delta> ''b'' \<and>
   outcome (constructor no_properties empty_maps [''a'', ''b''] [''0''] preempted_\<delta> ''a'' [] [])
     = Inl (MissingTransition ''a'' ''0'')"
  by code_simp

text \<open>
  Claim C9. The constructor gives the same result, the same automaton or the same
  failure, on lists with duplicates and on the deduplicated lists, so duplicates never
  make it fail and never change what \<open>read\<close> and \<open>test\<close> return; the automaton holds the
  deduplicated lists, and deduplication keeps the first occurrence of each element.
\<close>

theorem duplicates_dropped:
  "constructor rt h qs sigma d q_init fs lbl =
     constructor rt h (dedup qs) (dedup sigma) d q_init (dedup fs) lbl \<and>
   (\<forall>A h'. constructor rt h qs sigma d q_init fs lbl = Inr (A, h') \<longrightarrow>
      Q A = dedup qs \<and> \<Sigma> A = dedup sigma \<and> F A = dedup fs) \<and>
   dedup qs = rev (remdups (rev qs)) \<and> dedup sigma = rev (remdups (rev sigma)) \<and>
   dedup fs = rev (remdups (rev fs))"
proof -
  have "constructor rt h qs sigma d q_init fs lbl =
     constructor rt h (dedup qs) (dedup sigma) d q_init (dedup fs) lbl"
    unfolding constructor_def dedup_idem ..
  moreover have "\<forall>A h'. constructor rt h qs sigma d q_init fs lbl = Inr (A, h') \<longrightarrow>
      Q A = dedup qs \<and> \<Sigma> A = dedup sigma \<and> F A = dedup fs"
    by (auto elim!: constructor_Inr)
  ultimately show ?thesis by (simp add: dedup_first_occurrences)
qed

text \<open>The theorem at \<open>A001\<close> with a repeated state, symbol and accept state.\<close>

theorem duplicates_dropped_witness:
  "constructor no_properties A001_maps [''q0'', ''q1'', ''e'', ''q0''] [''0'', ''1'', ''0''] A001_\<delta> ''q0''
      [''q0'', ''q1'', ''q0''] ''0+(01)*(0+E)'' = Inr (A001, A001_maps) \<and>
   constructor no_properties A001_maps [''q0'', ''q1'', ''e''] [''0'', ''1''] A001_\<delta> ''q0''
      [''q0'', ''q1''] ''0+(01)*(0+E)'' = Inr (A001, A001_maps) \<and>
   dedup [''q0'', ''q1'', ''e'', ''q0''] = [''q0'', ''q1'', ''e''] \<and>
   Q A001 = [''q0'', ''q1'', ''e'']"
proof -
  have d: "dedup [''q0'', ''q1'', ''e'', ''q0''] = [''q0'', ''q1'', ''e'']"
    "dedup [''0'', ''1'', ''0''] = [''0'', ''1'']" "dedup [''q0'', ''q1'', ''q0''] = [''q0'', ''q1'']"
    by code_simp+
  from duplicates_dropped [of no_properties A001_maps "[''q0'', ''q1'', ''e'', ''q0'']"
      "[''0'', ''1'', ''0'']" A001_\<delta> "''q0''" "[''q0'', ''q1'', ''q0'']" "''0+(01)*(0+E)''"]
  have "constructor no_properties A001_maps [''q0'', ''q1'', ''e'', ''q0''] [''0'', ''1'', ''0''] A001_\<delta> ''q0''
      [''q0'', ''q1'', ''q0''] ''0+(01)*(0+E)'' =
     constructor no_properties A001_maps [''q0'', ''q1'', ''e''] [''0'', ''1''] A001_\<delta> ''q0''
      [''q0'', ''q1''] ''0+(01)*(0+E)''"
    unfolding d by blast
  with A001_constructed [of no_properties] d show ?thesis by (simp add: A001_def)
qed

text \<open>
  Claim C10. If a key of the raw table is not a state of \<open>Q\<close>, the constructor fails with
  the error \<open>StateNotInQ\<close> naming the first such key in the table's key order (that key,
  when it is the only one), whatever the entries are, and leaves the table and the maps
  as they were.
\<close>

theorem foreign_key_rejected:
  assumes "k \<in> fst ` set d" and "k \<notin> set qs"
  shows "(\<exists>k'. find (\<lambda>k. k \<notin> set qs) (map fst d) = Some k' \<and>
            constructor rt h qs sigma d q_init fs lbl = Inl (StateNotInQ k', d, h)) \<and>
         ((\<forall>k'\<in>fst ` set d. k' \<notin> set qs \<longrightarrow> k' = k) \<longrightarrow>
            constructor rt h qs sigma d q_init fs lbl = Inl (StateNotInQ k, d, h))"
proof -
  let ?P = "\<lambda>k. validate_state (dedup qs) k \<noteq> Inr ()"
  have P: "?P = (\<lambda>k. k \<notin> set qs)" by (simp add: validate_state_iff set_dedup fun_eq_iff)
  from assms obtain k' where k': "find (\<lambda>k. k \<notin> set qs) (map fst d) = Some k'"
    by (cases "find (\<lambda>k. k \<notin> set qs) (map fst d)") (auto simp: find_None_iff)
  then have bad: "k' \<notin> set qs" and mem: "k' \<in> fst ` set d"
    by (auto simp: find_Some_iff)
  from k' P have "find ?P (map fst d) = Some k'" by simp
  moreover from bad have "validate_state (dedup qs) k' = Inl (StateNotInQ k')"
    by (simp add: validate_state_def set_dedup)
  ultimately have "map_validate (validate_state (dedup qs)) (map fst d) = Inl (StateNotInQ k')"
    by (rule map_validate_find)
  then have c: "constructor rt h qs sigma d q_init fs lbl = Inl (StateNotInQ k', d, h)"
    by (simp add: constructor_def complete_\<delta>_def)
  have "k' = k" if "\<forall>k'\<in>fst ` set d. k' \<notin> set qs \<longrightarrow> k' = k"
    using that bad mem by blast
  with c k' show ?thesis by blast
qed

text \<open>The theorem at the table of \<open>A001\<close>, complete and valid, with one more key \<open>x\<close>.\<close>

theorem foreign_key_rejected_witness:
  "''x'' \<in> fst ` set (A001_\<delta> @ [(''x'', Full 3)]) \<and> ''x'' \<notin> set [''q0'', ''q1'', ''e''] \<and>
   constructor no_properties A001_maps [''q0'', ''q1'', ''e''] [''0'', ''1'']
     (A001_\<delta> @ [(''x'', Full 3)]) ''q0'' [''q0'', ''q1''] []
     = Inl (StateNotInQ ''x'', A001_\<delta> @ [(''x'', Full 3)], A001_maps)"
proof -
  have 1: "''x'' \<in> fst ` set (A001_\<delta> @ [(''x'', Full 3)])" by simp
  have 2: "''x'' \<notin> set [''q0'', ''q1'', ''e'']" by simp
  have 3: "\<forall>k'\<in>fst ` set (A001_\<delta> @ [(''x'', Full 3)]). k' \<notin> set [''q0'', ''q1'', ''e''] \<longrightarrow> k' = ''x''"
    by (simp add: A001_\<delta>_def)
  from foreign_key_rejected [OF 1 2, of no_properties A001_maps] 3 1 2 show ?thesis by blast
qed

end
